theory Spec2Isabelle
  imports Main
begin


section \<open>Strings and numbers of the host language\<close>

text \<open>
  The source is JavaScript. A string is modelled as a list of 8-bit characters, so the model
  covers documents whose characters lie in the Latin-1 range; the classes \<open>\d\<close>,
  \<open>\w\<close> and \<open>\s\<close> of the source's regular expressions are then the sets below (of the
  white space of JavaScript only the no-break space 0xA0 lies in this range besides the ASCII
  white space). Under the flag \<open>i\<close> two characters are equal when their upper-case forms
  are; the model folds the letters a to z only, which in this range differs from the host
  language for the accented letters, none of which occurs in a pattern of the source.
\<close>

definition is_digit :: "char \<Rightarrow> bool" where
  "is_digit c = (c \<in> set ''0123456789'')"

definition is_space :: "char \<Rightarrow> bool" where
  "is_space c = (c \<in> set [CHR 0x09, CHR 0x0A, CHR 0x0B, CHR 0x0C, CHR 0x0D, CHR 0x20, CHR 0xA0])"

definition lower_letters :: string where
  "lower_letters = ''abcdefghijklmnopqrstuvwxyz''"

definition upper_letters :: string where
  "upper_letters = ''ABCDEFGHIJKLMNOPQRSTUVWXYZ''"

definition is_word :: "char \<Rightarrow> bool" where
  "is_word c = (c \<in> set lower_letters \<or> c \<in> set upper_letters \<or> is_digit c \<or> c = CHR ''_'')"

definition to_upper :: "char \<Rightarrow> char" where
  "to_upper c = (case map_of (zip lower_letters upper_letters) c of Some u \<Rightarrow> u | None \<Rightarrow> c)"

definition to_lower :: "char \<Rightarrow> char" where
  "to_lower c = (case map_of (zip upper_letters lower_letters) c of Some l \<Rightarrow> l | None \<Rightarrow> c)"

text \<open>
  The regular expressions of the source use single characters, the classes \<open>\s\<close>,
  \<open>\d\<close>, \<open>\w\<close>, negated single characters \<open>[^c]\<close>, concatenation,
  alternation, greedy and lazy iteration of a class, and capture groups. \<open>regex\<close> is that
  fragment: \<open>Star c\<close> is \<open>c*\<close>, \<open>Lazy c\<close> is \<open>c*?\<close>, and \<open>Group i r\<close> is the
  \<open>i\<close>-th pair of parentheses.
\<close>

datatype cclass = Lit char | Space | Digit | Word | NotChar char

datatype regex =
    Atom cclass
  | Seq regex regex
  | Alt regex regex
  | Star cclass
  | Lazy cclass
  | Group nat regex
  | Eps

fun in_class :: "bool \<Rightarrow> cclass \<Rightarrow> char \<Rightarrow> bool" where
  "in_class ic (Lit p) c = (if ic then to_upper p = to_upper c else p = c)"
| "in_class ic Space c = is_space c"
| "in_class ic Digit c = is_digit c"
| "in_class ic Word c = is_word c"
| "in_class ic (NotChar p) c = (if ic then to_upper p \<noteq> to_upper c else p \<noteq> c)"

text \<open>
  The matcher is the backtracking matcher of the host language, written with an explicit
  continuation: a stack of what is still to be matched. \<open>Close i s0\<close> on the stack ends group
  \<open>i\<close>, which began when the input was \<open>s0\<close>. \<open>m ic k s cs\<close> matches the stack \<open>k\<close>
  against a prefix of \<open>s\<close> and returns the unread rest and the captures, the most recent
  first; \<open>ic\<close> is the flag \<open>i\<close>. The alternatives are tried in the order of the host
  language: the left branch of \<open>Alt\<close> first, the longest iteration of \<open>Star\<close> first, the
  shortest of \<open>Lazy\<close> first.
\<close>

type_synonym caps = "(nat \<times> string) list"

datatype item = R regex | Close nat string

fun weight :: "regex \<Rightarrow> nat" where
  "weight (Atom c) = 1"
| "weight (Seq a b) = weight a + weight b + 1"
| "weight (Alt a b) = weight a + weight b + 1"
| "weight (Star c) = 1"
| "weight (Lazy c) = 1"
| "weight (Group i r) = weight r + 2"
| "weight Eps = 1"

fun iweight :: "item \<Rightarrow> nat" where
  "iweight (R r) = weight r"
| "iweight (Close i s) = 1"

function m :: "bool \<Rightarrow> item list \<Rightarrow> string \<Rightarrow> caps \<Rightarrow> (string \<times> caps) option" where
  "m ic [] s cs = Some (s, cs)"
| "m ic (R (Atom c) # k) s cs =
     (case s of [] \<Rightarrow> None | x # xs \<Rightarrow> if in_class ic c x then m ic k xs cs else None)"
| "m ic (R (Seq a b) # k) s cs = m ic (R a # R b # k) s cs"
| "m ic (R (Alt a b) # k) s cs =
     (case m ic (R a # k) s cs of Some r \<Rightarrow> Some r | None \<Rightarrow> m ic (R b # k) s cs)"
| "m ic (R (Star c) # k) s cs =
     (case s of
        [] \<Rightarrow> m ic k s cs
      | x # xs \<Rightarrow>
          if in_class ic c x
          then (case m ic (R (Star c) # k) xs cs of Some r \<Rightarrow> Some r | None \<Rightarrow> m ic k s cs)
          else m ic k s cs)"
| "m ic (R (Lazy c) # k) s cs =
     (case m ic k s cs of
        Some r \<Rightarrow> Some r
      | None \<Rightarrow>
          (case s of
             [] \<Rightarrow> None
           | x # xs \<Rightarrow> if in_class ic c x then m ic (R (Lazy c) # k) xs cs else None))"
| "m ic (R (Group i r) # k) s cs = m ic (R r # Close i s # k) s cs"
| "m ic (R Eps # k) s cs = m ic k s cs"
| "m ic (Close i s0 # k) s cs = m ic k s ((i, take (length s0 - length s) s0) # cs)"
  by pat_completeness auto
termination
  by (relation "measures [\<lambda>(ic, k, s, cs). length s, \<lambda>(ic, k, s, cs). sum_list (map iweight k)]") auto

fun str :: "string \<Rightarrow> regex" where
  "str [] = Eps"
| "str (c # cs) = Seq (Atom (Lit c)) (str cs)"

fun seqs :: "regex list \<Rightarrow> regex" where
  "seqs [] = Eps"
| "seqs (r # rs) = Seq r (seqs rs)"

fun alts :: "regex \<Rightarrow> regex list \<Rightarrow> regex" where
  "alts r [] = r"
| "alts r (r' # rs) = Alt r (alts r' rs)"

definition Plus :: "cclass \<Rightarrow> regex" where
  "Plus c = Seq (Atom c) (Star c)"

record rmatch =
  m_index :: nat
  m_text :: string
  m_caps :: caps

definition match_here :: "bool \<Rightarrow> regex \<Rightarrow> string \<Rightarrow> (string \<times> caps) option" where
  "match_here ic r s = m ic [R r] s []"

text \<open>
  \<open>search\<close> tries the positions of the input from left to right, as \<open>RegExp.prototype.exec\<close>
  does; \<open>i\<close> is the index of the head of the input in the whole text. \<open>exec\<close> is one call of
  \<open>regex.exec(text)\<close> with the given \<open>lastIndex\<close>. \<open>exec_all\<close> is the loop
  \<open>while ((match = regex.exec(text)) !== null)\<close> of a regular expression with the flag
  \<open>g\<close>, which sets \<open>lastIndex\<close> to the end of each match. The loop of the source does not end
  when a match is empty; the model returns at such a match, and the lemmas
  \<open>markRegex_consumes\<close>, \<open>imgSrcRegex_consumes\<close>, \<open>imgScRegex_consumes\<close> and
  \<open>filesRegex_consumes\<close> show that no pattern the source runs in such a loop has an empty
  match, so that the guard is never taken (\<open>exec_all_unguarded\<close>).
\<close>

fun search :: "bool \<Rightarrow> regex \<Rightarrow> string \<Rightarrow> nat \<Rightarrow> rmatch option" where
  "search ic r [] i =
     (case match_here ic r [] of
        Some (s', cs) \<Rightarrow> Some \<lparr>m_index = i, m_text = [], m_caps = cs\<rparr>
      | None \<Rightarrow> None)"
| "search ic r (x # xs) i =
     (case match_here ic r (x # xs) of
        Some (s', cs) \<Rightarrow> Some \<lparr>m_index = i, m_text = take (length (x # xs) - length s') (x # xs), m_caps = cs\<rparr>
      | None \<Rightarrow> search ic r xs (Suc i))"

definition exec :: "bool \<Rightarrow> regex \<Rightarrow> string \<Rightarrow> nat \<Rightarrow> rmatch option" where
  "exec ic r text lastIndex =
     (if lastIndex > length text then None else search ic r (drop lastIndex text) lastIndex)"


function exec_all :: "bool \<Rightarrow> regex \<Rightarrow> string \<Rightarrow> nat \<Rightarrow> rmatch list" where
  "exec_all ic r text lastIndex =
     (case exec ic r text lastIndex of
        None \<Rightarrow> []
      | Some mt \<Rightarrow>
          if m_index mt + length (m_text mt) \<le> lastIndex then []
          else mt # exec_all ic r text (m_index mt + length (m_text mt)))"
  by pat_completeness auto
termination
  by (relation "measure (\<lambda>(ic, r, text, lastIndex). Suc (length text) - lastIndex)")
     (auto simp: exec_def split: if_splits)

declare exec_all.simps [simp del]

text \<open>
  \<open>group mt i\<close> is \<open>match[i]\<close>. Every group read by the source has taken part in the match
  when the match succeeds, so the value \<open>undefined\<close> of the host language does not arise.
\<close>

definition group :: "rmatch \<Rightarrow> nat \<Rightarrow> string" where
  "group mt i = (case map_of (m_caps mt) i of Some g \<Rightarrow> g | None \<Rightarrow> [])"

text \<open>
  \<open>String.prototype.indexOf\<close>, \<open>includes\<close>, \<open>substring\<close> (which clamps its arguments and
  swaps them when they are out of order) and \<open>endsWith\<close>.
\<close>

fun indexOf_from :: "string \<Rightarrow> string \<Rightarrow> nat \<Rightarrow> nat option" where
  "indexOf_from [] p i = (if p = [] then Some i else None)"
| "indexOf_from (x # xs) p i =
     (if take (length p) (x # xs) = p then Some i else indexOf_from xs p (Suc i))"

definition indexOf :: "string \<Rightarrow> string \<Rightarrow> nat option" where
  "indexOf s p = indexOf_from s p 0"

definition str_includes :: "string \<Rightarrow> string \<Rightarrow> bool" where
  "str_includes s p = (indexOf s p \<noteq> None)"

definition substring :: "string \<Rightarrow> nat \<Rightarrow> nat \<Rightarrow> string" where
  "substring s a b =
     (let a' = min a (length s); b' = min b (length s)
      in take (max a' b' - min a' b') (drop (min a' b') s))"

definition endsWith :: "string \<Rightarrow> string \<Rightarrow> bool" where
  "endsWith s suf = (length suf \<le> length s \<and> drop (length s - length suf) s = suf)"

text \<open>
  Decimal numerals. \<open>show_nat\<close> writes a natural number in decimal and \<open>decimal\<close> reads a
  string of digits.
\<close>

definition digit_char :: "nat \<Rightarrow> char" where
  "digit_char d = ''0123456789'' ! d"

definition digit_val :: "char \<Rightarrow> nat" where
  "digit_val c = length (takeWhile (\<lambda>d. d \<noteq> c) ''0123456789'')"

fun show_nat :: "nat \<Rightarrow> string" where
  "show_nat n = (if n < 10 then [digit_char n] else show_nat (n div 10) @ [digit_char (n mod 10)])"

declare show_nat.simps [simp del]

definition decimal :: "string \<Rightarrow> nat" where
  "decimal ds = foldl (\<lambda>acc c. 10 * acc + digit_val c) 0 ds"

text \<open>
  Numbers. A number of the host language is an IEEE double. The numbers of the source come
  from \<open>parseInt\<close> and from adding 1, so they are non-negative integers that a double can
  hold, \<open>Infinity\<close> or \<open>NaN\<close>; \<open>Fin n\<close> is the double whose value is the integer \<open>n\<close>.

  \<open>round53\<close> rounds a natural number to the nearest number with a significand of 53 bits,
  a tie going to the even significand: \<open>expo n\<close> is the number of low bits that do not fit.
  All integers up to \<open>2^53\<close> are kept; \<open>2^53 + 1\<close> becomes \<open>2^53\<close>. \<open>toDouble\<close> is this rounding
  with the overflow to \<open>Infinity\<close> from \<open>2^1024\<close> on. The bound \<open>2^53\<close> is compared over the
  integers, so that evaluating the test on a small number does not expand the bound.
\<close>

datatype number = Fin nat | Infinity | NaN

function expo :: "nat \<Rightarrow> nat" where
  "expo n = (if int n < 9007199254740992 then 0 else Suc (expo (n div 2)))"
  by pat_completeness auto
termination
  by (relation "measure id") auto

declare expo.simps [simp del]

definition round53 :: "nat \<Rightarrow> nat" where
  "round53 n =
     (let e = expo n; q = n div 2 ^ e; r = n mod 2 ^ e
      in if 2 ^ e < 2 * r \<or> (2 * r = 2 ^ e \<and> odd q) then (q + 1) * 2 ^ e else q * 2 ^ e)"

definition toDouble :: "nat \<Rightarrow> number" where
  "toDouble n =
     (if int n < 9007199254740992 then Fin n
      else if round53 n < 2 ^ 1024 then Fin (round53 n) else Infinity)"

text \<open>
  \<open>parseInt10\<close> is \<open>parseInt(s, 10)\<close> on a string that does not begin with white space or a
  sign (the source passes the digits captured by \<open>\d+\<close>, and a key made by \<open>String\<close>): the
  leading digits are read and their value is rounded to a double; without a leading digit the
  result is \<open>NaN\<close>. So \<open>parseInt('1e+21', 10)\<close> is 1. The language lets an engine drop the
  digits after the twentieth; the model reads them all, as the engine of the editor does.
\<close>

definition parseInt10 :: "string \<Rightarrow> number" where
  "parseInt10 s =
     (let ds = takeWhile is_digit s in if ds = [] then NaN else toDouble (decimal ds))"

text \<open>
  \<open>numToString\<close> is \<open>String(x)\<close>, which is also what a template literal and a property key
  make of a number. Up to \<open>2^53\<close> every integer is a double of its own and is written as its
  decimal numeral. A larger double is written with the fewest significant digits that still
  round to it, and of these the closest: \<open>shortestFrom v nd k\<close> looks, for \<open>k\<close>, \<open>k + 1\<close>, ...
  significant digits, at the two multiples of \<open>10 ^ (nd - k)\<close> around \<open>v\<close>, where \<open>nd\<close> is
  the number of digits of \<open>v\<close>; the power of ten above \<open>v\<close> is tried first, since it has one
  significant digit. The digits are followed by zeros while the numeral has at most 21 digits,
  and written in the exponent form \<open>d.ddde+n\<close> beyond: \<open>String(1e21)\<close> is \<open>1e+21\<close>,
  and \<open>String(2 ** 60)\<close> is \<open>1152921504606847000\<close>.
\<close>

function shortestFrom :: "nat \<Rightarrow> nat \<Rightarrow> nat \<Rightarrow> nat" where
  "shortestFrom v nd k =
     (if nd \<le> k then v
      else
        (let u = 10 ^ (nd - k); lo = (v div u) * u; hi = lo + u;
             okLo = (round53 lo = v); okHi = (hi < 10 ^ nd \<and> round53 hi = v)
         in if okLo \<and> okHi
            then (if v - lo < hi - v \<or> (v - lo = hi - v \<and> even (v div u)) then lo else hi)
            else if okLo then lo
            else if okHi then hi
            else shortestFrom v nd (Suc k)))"
  by pat_completeness auto
termination
  by (relation "measure (\<lambda>(v, nd, k). nd - k)") auto

declare shortestFrom.simps [simp del]

definition exponentForm :: "string \<Rightarrow> string" where
  "exponentForm ds =
     (case rev (dropWhile (\<lambda>c. c = CHR ''0'') (rev ds)) of
        [] \<Rightarrow> []
      | d # rest \<Rightarrow> d # (if rest = [] then [] else CHR ''.'' # rest))
     @ ''e+'' @ show_nat (length ds - 1)"

definition numToString :: "number \<Rightarrow> string" where
  "numToString x =
     (case x of
        NaN \<Rightarrow> ''NaN''
      | Infinity \<Rightarrow> ''Infinity''
      | Fin v \<Rightarrow>
          if int v \<le> 9007199254740992 then show_nat v
          else
            (let nd = length (show_nat v);
                 c = (if round53 (10 ^ nd) = v then 10 ^ nd else shortestFrom v nd 1);
                 ds = show_nat c
             in if length ds \<le> 21 then ds else exponentForm ds))"

text \<open>
  \<open>plusOne x\<close> is \<open>x + 1\<close>: the sum is rounded, so from \<open>2^53\<close> on it can be \<open>x\<close> again.
  \<open>numGreater x k\<close> is \<open>x > k\<close> and \<open>notIdentical x y\<close> is \<open>x !== y\<close>; a comparison with \<open>NaN\<close>
  is false, and \<open>NaN\<close> is not identical to itself. The test \<open>x === 1\<close> is the equality with
  \<open>Fin 1\<close>, and the keys of a \<open>Map\<close> and the elements of a \<open>Set\<close> are compared by equality,
  under which \<open>NaN\<close> is one key.
\<close>

fun plusOne :: "number \<Rightarrow> number" where
  "plusOne (Fin n) = toDouble (n + 1)"
| "plusOne Infinity = Infinity"
| "plusOne NaN = NaN"

fun numGreater :: "number \<Rightarrow> nat \<Rightarrow> bool" where
  "numGreater (Fin n) k = (k < n)"
| "numGreater Infinity k = True"
| "numGreater NaN k = False"

definition notIdentical :: "number \<Rightarrow> number \<Rightarrow> bool" where
  "notIdentical x y = (x = NaN \<or> y = NaN \<or> x \<noteq> y)"

text \<open>
  \<open>sortNumbers\<close> is \<open>sort((a, b) => a - b)\<close> on a copy of the array. \<open>minusPositive a b\<close>
  says that \<open>a - b\<close> is positive; the difference of \<open>Infinity\<close> and itself is \<open>NaN\<close>, which
  the sort takes as 0. The sort of the host language is stable, so for numbers other than
  \<open>NaN\<close> its result is that of the insertion sort below. The list the source sorts holds no
  \<open>NaN\<close> (lemma \<open>imageNumber_not_NaN\<close>).
\<close>

fun minusPositive :: "number \<Rightarrow> number \<Rightarrow> bool" where
  "minusPositive (Fin a) (Fin b) = (b < a)"
| "minusPositive Infinity (Fin b) = True"
| "minusPositive (Fin a) Infinity = False"
| "minusPositive Infinity Infinity = False"
| "minusPositive NaN y = False"
| "minusPositive (Fin a) NaN = False"
| "minusPositive Infinity NaN = False"

fun insertNumber :: "number \<Rightarrow> number list \<Rightarrow> number list" where
  "insertNumber x [] = [x]"
| "insertNumber x (y # ys) = (if minusPositive x y then y # insertNumber x ys else x # y # ys)"

definition sortNumbers :: "number list \<Rightarrow> number list" where
  "sortNumbers xs = foldr insertNumber xs []"

text \<open>
  \<open>padStart2\<close> is \<open>padStart(2, '0')\<close>.
\<close>

definition padStart2 :: "string \<Rightarrow> string" where
  "padStart2 s = replicate (2 - length s) CHR ''0'' @ s"

text \<open>
  \<open>String.prototype.replace\<close> with a string pattern replaces the first occurrence and expands
  the patterns \<open>$$\<close>, \<open>$&\<close>, \<open>$`\<close> and \<open>$'\<close> in the replacement.
\<close>

fun getSubstitution :: "string \<Rightarrow> string \<Rightarrow> string \<Rightarrow> string \<Rightarrow> string" where
  "getSubstitution matched pre post [] = []"
| "getSubstitution matched pre post [c] = [c]"
| "getSubstitution matched pre post (c # d # r) =
     (if c = CHR ''$'' \<and> d = CHR ''$'' then CHR ''$'' # getSubstitution matched pre post r
      else if c = CHR ''$'' \<and> d = CHR ''&'' then matched @ getSubstitution matched pre post r
      else if c = CHR ''$'' \<and> d = CHR 0x60 then pre @ getSubstitution matched pre post r
      else if c = CHR ''$'' \<and> d = CHR 0x27 then post @ getSubstitution matched pre post r
      else c # getSubstitution matched pre post (d # r))"

definition replace :: "string \<Rightarrow> string \<Rightarrow> string \<Rightarrow> string" where
  "replace s pat rep =
     (case indexOf s pat of
        None \<Rightarrow> s
      | Some i \<Rightarrow>
          take i s
          @ getSubstitution pat (take i s) (drop (i + length pat) s) rep
          @ drop (i + length pat) s)"

text \<open>
  \<open>path.basename\<close> and the field \<open>name\<close> of \<open>path.parse\<close>, in their POSIX form: the separator
  is \<open>/\<close>.
\<close>

definition basename :: "string \<Rightarrow> string" where
  "basename p =
     rev (takeWhile (\<lambda>c. c \<noteq> CHR ''/'') (dropWhile (\<lambda>c. c = CHR ''/'') (rev p)))"

definition parse_name :: "string \<Rightarrow> string" where
  "parse_name p =
     (let base = basename p;
          afterDot = takeWhile (\<lambda>c. c \<noteq> CHR ''.'') (rev base)
      in if length afterDot = length base then base
         else if Suc (length afterDot) = length base \<or> base = ''..'' then base
         else take (length base - Suc (length afterDot)) base)"

section \<open>The editor's data\<close>

text \<open>
  The editor interface the source uses: \<open>vscode.DiagnosticSeverity\<close>, \<open>vscode.Range\<close>,
  \<open>vscode.Diagnostic\<close> and \<open>vscode.TextDocument\<close>. A position is identified with its offset
  in the text; \<open>positionAt\<close> clamps an offset to the text, as the editor does, and the
  constructor of a range orders its two ends. \<open>contains\<close> includes both ends.

  The field \<open>code\<close> of a diagnostic carries a command link whose arguments are a document
  address, a range and a replacement text; \<open>fixcode\<close> holds its \<open>value\<close> and these three
  arguments.
\<close>

datatype severity = Error | Warning | Information | Hint

record vrange =
  r_start :: nat
  r_end :: nat

record fixcode =
  fix_value :: string
  fix_uri :: string
  fix_range :: vrange
  fix_text :: string

record diagnostic =
  d_range :: vrange
  d_message :: string
  d_severity :: severity
  d_source :: string
  d_code :: "fixcode option"

record document =
  doc_text :: string
  doc_fileName :: string
  doc_uri :: string
  doc_languageId :: string

definition positionAt :: "document \<Rightarrow> int \<Rightarrow> nat" where
  "positionAt doc off = nat (max 0 (min off (int (length (doc_text doc)))))"

definition newRange :: "nat \<Rightarrow> nat \<Rightarrow> vrange" where
  "newRange a b = (if a \<le> b then \<lparr>r_start = a, r_end = b\<rparr> else \<lparr>r_start = b, r_end = a\<rparr>)"

definition contains :: "vrange \<Rightarrow> nat \<Rightarrow> bool" where
  "contains r p = (r_start r \<le> p \<and> p \<le> r_end r)"

section \<open>markRule.js\<close>

text \<open>
  \<open>findTotalQuestionMarks\<close> (markRule.js) runs
  \<open>/<p\s+align="right"><b>\(Total for question\s*=\s*(\d+)\s*(mark|marks)\)<\/b><\/p>/gi\<close>
  over the text and returns, for each match, the matched text, the number, the unit in lower
  case and the index.
\<close>

definition markRegex :: regex where
  "markRegex = seqs [str ''<p'', Plus Space, str ''align=\"right\"><b>(Total for question'',
     Star Space, str ''='', Star Space, Group 1 (Plus Digit), Star Space,
     Group 2 (Alt (str ''mark'') (str ''marks'')), str '')</b></p>'']"

record qmatch =
  q_fullMatch :: string
  q_points :: number
  q_term :: string
  q_index :: nat

definition findTotalQuestionMarks :: "string \<Rightarrow> qmatch list" where
  "findTotalQuestionMarks text =
     map (\<lambda>mt. \<lparr>q_fullMatch = m_text mt, q_points = parseInt10 (group mt 1),
                 q_term = map to_lower (group mt 2), q_index = m_index mt\<rparr>)
         (exec_all True markRegex text 0)"

text \<open>
  \<open>isCorrectMarkUsage\<close>: \<open>(points === 1 && term === 'mark') || (points > 1 && term === 'marks')\<close>.
\<close>

definition isCorrectMarkUsage :: "number \<Rightarrow> string \<Rightarrow> bool" where
  "isCorrectMarkUsage points term =
     ((points = Fin 1 \<and> term = ''mark'') \<or> (numGreater points 1 \<and> term = ''marks''))"

definition getMatchRange :: "document \<Rightarrow> nat \<Rightarrow> string \<Rightarrow> vrange" where
  "getMatchRange doc idx fullMatch =
     newRange (positionAt doc (int idx)) (positionAt doc (int (idx + length fullMatch)))"

text \<open>
  \<open>getCorrectTerm\<close> is \<open>points === 1 ? 'mark' : 'marks'\<close>; \<open>createCorrectedText\<close> is the
  annotation with one space around the equals sign and before the unit. In \<open>createDiagnostic\<close>
  the document address of the command link is the literal text
  \<open>DOCUMENT_URI_PLACEHOLDER\<close>.
\<close>

definition getCorrectTerm :: "number \<Rightarrow> string" where
  "getCorrectTerm points = (if points = Fin 1 then ''mark'' else ''marks'')"

definition createCorrectedText :: "number \<Rightarrow> string" where
  "createCorrectedText points =
     ''<p align=\"right\"><b>(Total for question = '' @ numToString points @ '' ''
       @ getCorrectTerm points @ '')</b></p>''"

definition createDiagnostic :: "vrange \<Rightarrow> number \<Rightarrow> diagnostic" where
  "createDiagnostic rng points =
     \<lparr>d_range = rng,
      d_message = ''Use \"'' @ getCorrectTerm points @ ''\" for '' @ numToString points
                   @ '' point'' @ (if numGreater points 1 then ''s'' else ''''),
      d_severity = Warning,
      d_source = ''Educational Validator'',
      d_code = Some \<lparr>fix_value = ''fix-mark-marks'', fix_uri = ''DOCUMENT_URI_PLACEHOLDER'',
                       fix_range = rng, fix_text = createCorrectedText points\<rparr>\<rparr>"

text \<open>
  \<open>validate\<close> of markRule.js. The source pushes onto the array \<open>diagnostics\<close> it is given;
  the model takes the array and returns it with the new elements appended.
\<close>

definition markRule_validate :: "document \<Rightarrow> diagnostic list \<Rightarrow> diagnostic list" where
  "markRule_validate doc diagnostics =
     fold (\<lambda>mt ds.
             if \<not> isCorrectMarkUsage (q_points mt) (q_term mt)
             then ds @ [createDiagnostic (getMatchRange doc (q_index mt) (q_fullMatch mt)) (q_points mt)]
             else ds)
          (findTotalQuestionMarks (doc_text doc)) diagnostics"

section \<open>imageRule.js\<close>

text \<open>
  \<open>findAllImages\<close> (imageRule.js, lines 39 to 67) runs
  \<open>/<img\s+[^>]*?src="([^"]*)"[^>]*>/gi\<close> over the whole text and pushes its matches, then
  runs the same pattern with \<open>sc\<close> for \<open>src\<close> and pushes those, with
  \<open>hasScAttribute\<close> set.
\<close>

record image =
  i_fullMatch :: string
  i_src :: string
  i_index :: nat
  i_hasScAttribute :: bool

definition imgSrcRegex :: regex where
  "imgSrcRegex = seqs [str ''<img'', Plus Space, Lazy (NotChar CHR ''>''), str ''src=\"'',
     Group 1 (Star (NotChar CHR 0x22)), str ''\"'', Star (NotChar CHR ''>''), str ''>'']"

definition imgScRegex :: regex where
  "imgScRegex = seqs [str ''<img'', Plus Space, Lazy (NotChar CHR ''>''), str ''sc=\"'',
     Group 1 (Star (NotChar CHR 0x22)), str ''\"'', Star (NotChar CHR ''>''), str ''>'']"

definition findAllImages :: "string \<Rightarrow> image list" where
  "findAllImages text =
     map (\<lambda>mt. \<lparr>i_fullMatch = m_text mt, i_src = group mt 1, i_index = m_index mt,
                 i_hasScAttribute = False\<rparr>)
         (exec_all True imgSrcRegex text 0)
     @ map (\<lambda>mt. \<lparr>i_fullMatch = m_text mt, i_src = group mt 1, i_index = m_index mt,
                   i_hasScAttribute = True\<rparr>)
           (exec_all True imgScRegex text 0)"

text \<open>
  \<open>findImageTagTypos\<close> (lines 76 to 175). \<open>filesMatches\<close> is the \<open>Set\<close> of the texts matched by
  \<open>/(\w+)_files\/(\d+)\.png/gi\<close>: a list without repetitions in the order of first insertion,
  which is the order \<open>forEach\<close> visits. \<open>checkPath\<close> is the body of that \<open>forEach\<close> for one
  path: \<open>firstTypo\<close> is the \<open>for\<close> loop over the five patterns with its \<open>break\<close>, run on the
  text from 50 characters before the first occurrence of the path to 50 characters after it.
\<close>

definition filesRegex :: regex where
  "filesRegex = seqs [Group 1 (Plus Word), str ''_files/'', Group 2 (Plus Digit), str ''.png'']"

definition filesRefs :: "string \<Rightarrow> rmatch list" where
  "filesRefs text = exec_all True filesRegex text 0"

definition filesMatches :: "string \<Rightarrow> string list" where
  "filesMatches text =
     fold (\<lambda>mt paths. if m_text mt \<in> set paths then paths else paths @ [m_text mt])
          (filesRefs text) []"

definition typoTail :: "regex \<Rightarrow> regex" where
  "typoTail attrs = seqs [Lazy (NotChar CHR ''>''), attrs, str ''=\"'',
     Star (NotChar CHR 0x22), str ''\"'']"

definition typoMatches :: "regex list" where
  "typoMatches =
     [seqs [str ''<im'', Plus Space, typoTail (alts (str ''src'') [str ''sc''])],
      seqs [str ''<imge'', Plus Space, typoTail (alts (str ''src'') [str ''sc''])],
      seqs [str ''<image'', Plus Space, typoTail (alts (str ''src'') [str ''sc''])],
      seqs [str ''<i mg'', Plus Space, typoTail (alts (str ''src'') [str ''sc''])],
      seqs [str ''<'', Star Space, str ''img'', typoTail (alts (str ''s'') [str ''sr'', str ''rc'', str ''scr''])]]"

fun firstTypo :: "string \<Rightarrow> regex list \<Rightarrow> rmatch option" where
  "firstTypo contextText [] = None"
| "firstTypo contextText (typoRegex # rest) =
     (case exec True typoRegex contextText 0 of
        Some typoMatch \<Rightarrow> Some typoMatch
      | None \<Rightarrow> firstTypo contextText rest)"

definition startSearchIndex :: "nat \<Rightarrow> nat" where
  "startSearchIndex filePathIndex = nat (max 0 (int filePathIndex - 50))"

definition endSearchIndex :: "string \<Rightarrow> nat \<Rightarrow> string \<Rightarrow> nat" where
  "endSearchIndex text filePathIndex filePath =
     min (length text) (filePathIndex + length filePath + 50)"

definition contextText :: "string \<Rightarrow> nat \<Rightarrow> string \<Rightarrow> string" where
  "contextText text filePathIndex filePath =
     substring text (startSearchIndex filePathIndex) (endSearchIndex text filePathIndex filePath)"

definition typoDiagnostic :: "document \<Rightarrow> string \<Rightarrow> nat \<Rightarrow> rmatch \<Rightarrow> diagnostic" where
  "typoDiagnostic doc filePath filePathIndex typoMatch =
     (let typoTagPosition = startSearchIndex filePathIndex + m_index typoMatch;
          typoTagEndPosition = typoTagPosition + length (m_text typoMatch);
          rng = newRange (positionAt doc (int typoTagPosition)) (positionAt doc (int typoTagEndPosition));
          correctTag = ''<img src=\"'' @ filePath @ ''\">''
      in \<lparr>d_range = rng,
          d_message = ''Possible typo in image tag. Should be <img src=\"'' @ filePath @ ''\">'',
          d_severity = Error,
          d_source = ''Educational Validator'',
          d_code = Some \<lparr>fix_value = ''fix-image-tag-typo'', fix_uri = doc_uri doc,
                           fix_range = rng, fix_text = correctTag\<rparr>\<rparr>)"

definition pathDiagnostic :: "document \<Rightarrow> string \<Rightarrow> nat \<Rightarrow> diagnostic" where
  "pathDiagnostic doc filePath filePathIndex =
     \<lparr>d_range = newRange (positionAt doc (int filePathIndex - 5))
                        (positionAt doc (int (filePathIndex + length filePath + 5))),
      d_message = ''File path found outside a proper <img> tag. Check for HTML syntax errors.'',
      d_severity = Warning,
      d_source = ''Educational Validator'',
      d_code = None\<rparr>"

definition checkPath :: "document \<Rightarrow> string \<Rightarrow> image list \<Rightarrow> string \<Rightarrow> diagnostic list \<Rightarrow> diagnostic list" where
  "checkPath doc text images filePath diagnostics =
     (if list_ex (\<lambda>img. str_includes (i_src img) filePath) images then diagnostics
      else
        (case indexOf text filePath of
           None \<Rightarrow> diagnostics
         | Some filePathIndex \<Rightarrow>
             (let diagnostics1 =
                    (case firstTypo (contextText text filePathIndex filePath) typoMatches of
                       Some typoMatch \<Rightarrow>
                         diagnostics @ [typoDiagnostic doc filePath filePathIndex typoMatch]
                     | None \<Rightarrow> diagnostics)
              in if \<not> list_ex (\<lambda>d. contains (d_range d) (positionAt doc (int filePathIndex)))
                             diagnostics1
                 then diagnostics1 @ [pathDiagnostic doc filePath filePathIndex]
                 else diagnostics1)))"

definition findImageTagTypos :: "document \<Rightarrow> string \<Rightarrow> image list \<Rightarrow> diagnostic list \<Rightarrow> diagnostic list" where
  "findImageTagTypos doc text images diagnostics =
     (if filesMatches text = [] then diagnostics
      else fold (checkPath doc text images) (filesMatches text) diagnostics)"

text \<open>
  \<open>validateFolderNames\<close> (lines 184 to 220). The test \<open>srcPath && ...\<close> is false for the empty
  string.
\<close>

definition folderDiagnostic :: "document \<Rightarrow> string \<Rightarrow> image \<Rightarrow> diagnostic" where
  "folderDiagnostic doc expectedFolderName img =
     (let srcPath = i_src img;
          rng = getMatchRange doc (i_index img) (i_fullMatch img)
      in \<lparr>d_range = rng,
          d_message = ''Image source should be in \"'' @ expectedFolderName @ ''\" folder'',
          d_severity = Warning,
          d_source = ''Educational Validator'',
          d_code =
            (if \<not> i_hasScAttribute img
             then (let imageName = basename srcPath;
                       correctedSrc = expectedFolderName @ ''/'' @ imageName;
                       correctedTag = replace (i_fullMatch img) srcPath correctedSrc
                   in Some \<lparr>fix_value = ''fix-image-folder'', fix_uri = doc_uri doc,
                              fix_range = rng, fix_text = correctedTag\<rparr>)
             else None)\<rparr>)"

definition validateFolderNames :: "document \<Rightarrow> image list \<Rightarrow> string \<Rightarrow> diagnostic list \<Rightarrow> diagnostic list" where
  "validateFolderNames doc images expectedFolderName diagnostics =
     fold (\<lambda>img ds.
             if i_src img \<noteq> [] \<and> \<not> str_includes (i_src img) expectedFolderName
             then ds @ [folderDiagnostic doc expectedFolderName img]
             else ds)
          images diagnostics"

text \<open>
  \<open>validateImageNumbering\<close> (lines 228 to 322). The number of an image is read by
  \<open>/\/(\d+)\./\<close> from its \<open>src\<close>. \<open>imageMap\<close> is a \<open>Map\<close> from numbers to images, in which a
  later image with the same number replaces the earlier one.
\<close>

definition numRegex :: regex where
  "numRegex = seqs [str ''/'', Group 1 (Plus Digit), str ''.'']"

definition imageNumber :: "image \<Rightarrow> number option" where
  "imageNumber img =
     (case exec False numRegex (i_src img) 0 of
        Some mt \<Rightarrow> Some (parseInt10 (group mt 1))
      | None \<Rightarrow> None)"

definition collectNumbers :: "image list \<Rightarrow> number list \<times> (number \<rightharpoonup> image)" where
  "collectNumbers images =
     fold (\<lambda>img (imageNumbers, imageMap).
             case imageNumber img of
               Some number \<Rightarrow> (imageNumbers @ [number], imageMap(number \<mapsto> img))
             | None \<Rightarrow> (imageNumbers, imageMap))
          images ([], Map.empty)"

text \<open>
  \<open>counts\<close> is an object used as a table: the key of a number is the string \<open>String\<close>
  makes of it. \<open>bump\<close> is \<open>counts[num] = (counts[num] || 0) + 1\<close> on the properties in the
  order of their creation; a count is at most the number of images and is kept as a natural
  number. \<open>Object.entries\<close> lists the keys that are array indices (canonical decimal numerals
  below \<open>2^32 - 1\<close>) in ascending numeric order, and then the other keys in the order of their
  creation. The key is read back with \<open>parseInt\<close> before the image is looked up.
\<close>

fun bump :: "string \<Rightarrow> (string \<times> nat) list \<Rightarrow> (string \<times> nat) list" where
  "bump key [] = [(key, 1)]"
| "bump key ((k, c) # rest) = (if k = key then (k, c + 1) # rest else (k, c) # bump key rest)"

definition countNumbers :: "number list \<Rightarrow> (string \<times> nat) list" where
  "countNumbers imageNumbers = fold (\<lambda>num counts. bump (numToString num) counts) imageNumbers []"

definition isArrayIndex :: "string \<Rightarrow> bool" where
  "isArrayIndex key =
     (list_all is_digit key \<and> show_nat (decimal key) = key \<and> int (decimal key) < 4294967295)"

definition objectEntries :: "(string \<times> nat) list \<Rightarrow> (string \<times> nat) list" where
  "objectEntries props =
     sort_key (\<lambda>(key, v). decimal key) (filter (\<lambda>(key, v). isArrayIndex key) props)
     @ filter (\<lambda>(key, v). \<not> isArrayIndex key) props"

definition duplicateDiagnostic :: "document \<Rightarrow> image \<Rightarrow> string \<Rightarrow> nat \<Rightarrow> diagnostic" where
  "duplicateDiagnostic doc img num count =
     \<lparr>d_range = getMatchRange doc (i_index img) (i_fullMatch img),
      d_message = ''Duplicate image number: '' @ num @ '' is used '' @ show_nat count @ '' times'',
      d_severity = Error,
      d_source = ''Educational Validator'',
      d_code = None\<rparr>"

definition startDiagnostic :: "document \<Rightarrow> image \<Rightarrow> number \<Rightarrow> diagnostic" where
  "startDiagnostic doc img firstNumber =
     \<lparr>d_range = getMatchRange doc (i_index img) (i_fullMatch img),
      d_message = ''Image numbering should start with 01, found '' @ padStart2 (numToString firstNumber),
      d_severity = Warning,
      d_source = ''Educational Validator'',
      d_code = None\<rparr>"

definition gapDiagnostic :: "document \<Rightarrow> image \<Rightarrow> number \<Rightarrow> number \<Rightarrow> diagnostic" where
  "gapDiagnostic doc img previous currentNum =
     \<lparr>d_range = getMatchRange doc (i_index img) (i_fullMatch img),
      d_message = ''Image numbering is not sequential. Expected ''
                   @ padStart2 (numToString (plusOne previous))
                   @ '', found '' @ padStart2 (numToString currentNum),
      d_severity = Warning,
      d_source = ''Educational Validator'',
      d_code = None\<rparr>"

text \<open>
  The three parts of the body after the early return: the duplicates (lines 253 to 278), the
  first number (lines 281 to 299) and the walk over the sorted numbers (lines 302 to 321). An
  index of the walk is below the length of the array, so no read is out of range. The test of
  the walk is \<open>currentNum !== sortedNumbers[i-1] + 1\<close>, with the sum of the host language.
\<close>

definition checkDuplicates :: "document \<Rightarrow> number list \<Rightarrow> (number \<rightharpoonup> image) \<Rightarrow> diagnostic list \<Rightarrow> diagnostic list" where
  "checkDuplicates doc imageNumbers imageMap diagnostics =
     (if length (remdups imageNumbers) \<noteq> length imageNumbers
      then fold (\<lambda>(num, count) ds.
                   if count > 1
                   then (case imageMap (parseInt10 num) of
                           Some img \<Rightarrow> ds @ [duplicateDiagnostic doc img num count]
                         | None \<Rightarrow> ds)
                   else ds)
                (objectEntries (countNumbers imageNumbers)) diagnostics
      else diagnostics)"

definition checkStart :: "document \<Rightarrow> number list \<Rightarrow> (number \<rightharpoonup> image) \<Rightarrow> diagnostic list \<Rightarrow> diagnostic list" where
  "checkStart doc sortedNumbers imageMap diagnostics =
     (case sortedNumbers of
        [] \<Rightarrow> diagnostics
      | firstNumber # rest \<Rightarrow>
          if firstNumber \<noteq> Fin 1
          then (case imageMap firstNumber of
                  Some img \<Rightarrow> diagnostics @ [startDiagnostic doc img firstNumber]
                | None \<Rightarrow> diagnostics)
          else diagnostics)"

definition checkSequence :: "document \<Rightarrow> number list \<Rightarrow> (number \<rightharpoonup> image) \<Rightarrow> diagnostic list \<Rightarrow> diagnostic list" where
  "checkSequence doc sortedNumbers imageMap diagnostics =
     fold (\<lambda>i ds.
             if i > 0 \<and> notIdentical (sortedNumbers ! i) (plusOne (sortedNumbers ! (i - 1)))
             then (case imageMap (sortedNumbers ! i) of
                     Some img \<Rightarrow> ds @ [gapDiagnostic doc img (sortedNumbers ! (i - 1)) (sortedNumbers ! i)]
                   | None \<Rightarrow> ds)
             else ds)
          [0..<length sortedNumbers] diagnostics"

definition validateImageNumbering :: "document \<Rightarrow> image list \<Rightarrow> diagnostic list \<Rightarrow> diagnostic list" where
  "validateImageNumbering doc images diagnostics =
     (case collectNumbers images of
        (imageNumbers, imageMap) \<Rightarrow>
          if imageNumbers = [] then diagnostics
          else (let sortedNumbers = sortNumbers imageNumbers
                in checkSequence doc sortedNumbers imageMap
                     (checkStart doc sortedNumbers imageMap
                        (checkDuplicates doc imageNumbers imageMap diagnostics))))"

text \<open>
  \<open>validate\<close> of imageRule.js (lines 9 to 32).
\<close>

definition imageRule_validate :: "document \<Rightarrow> diagnostic list \<Rightarrow> diagnostic list" where
  "imageRule_validate doc diagnostics =
     (let text = doc_text doc;
          fileName = parse_name (doc_fileName doc);
          expectedFolderName = fileName @ ''_files'';
          images = findAllImages text;
          diagnostics1 = findImageTagTypos doc text images diagnostics
      in if images = [] then diagnostics1
         else validateImageNumbering doc images
                (validateFolderNames doc images expectedFolderName diagnostics1))"

section \<open>extension.js\<close>

text \<open>
  \<open>validateDocument\<close> of extension.js clears the array, runs the mark rule and then the image
  rule on it, and sets it as the entry of the document in the diagnostic collection. The
  command \<open>educational-validator.fixIssue\<close> builds a workspace edit that replaces the range by
  the text in the document of the given address; \<open>applyEdit\<close> is that replacement on a text.
\<close>

definition isHtmlLike :: "document \<Rightarrow> bool" where
  "isHtmlLike doc =
     (doc_languageId doc = ''html'' \<or> doc_languageId doc = ''php''
      \<or> endsWith (doc_fileName doc) ''.html'' \<or> endsWith (doc_fileName doc) ''.htm'')"

type_synonym diagnosticCollection = "string \<rightharpoonup> diagnostic list"

definition validateDocument :: "document \<Rightarrow> diagnosticCollection \<Rightarrow> diagnosticCollection" where
  "validateDocument doc diagnosticsCollection =
     (if \<not> isHtmlLike doc then diagnosticsCollection
      else diagnosticsCollection(doc_uri doc \<mapsto> imageRule_validate doc (markRule_validate doc [])))"

record workspaceEdit =
  e_uri :: string
  e_range :: vrange
  e_newText :: string

definition fixIssue :: "fixcode \<Rightarrow> workspaceEdit" where
  "fixIssue c = \<lparr>e_uri = fix_uri c, e_range = fix_range c, e_newText = fix_text c\<rparr>"

definition applyEdit :: "string \<Rightarrow> workspaceEdit \<Rightarrow> string" where
  "applyEdit t e = take (r_start (e_range e)) t @ e_newText e @ drop (r_end (e_range e)) t"

section \<open>Terms used in the statements\<close>

text \<open>
  The functions below are not code of the program. They name what the statements speak about:
  the image a number is mapped to after the collection loop, the diagnostics one entry of the
  counts and one index of the walk contribute, and the example documents.
\<close>

definition lastImage :: "image list \<Rightarrow> number \<Rightarrow> image option" where
  "lastImage images n =
     (if filter (\<lambda>img. imageNumber img = Some n) images = [] then None
      else Some (last (filter (\<lambda>img. imageNumber img = Some n) images)))"

definition dupEntry :: "document \<Rightarrow> (number \<rightharpoonup> image) \<Rightarrow> string \<times> nat \<Rightarrow> diagnostic list" where
  "dupEntry doc imap e =
     (if snd e > 1
      then (case imap (parseInt10 (fst e)) of
              Some img \<Rightarrow> [duplicateDiagnostic doc img (fst e) (snd e)]
            | None \<Rightarrow> [])
      else [])"

definition gapAt :: "document \<Rightarrow> number list \<Rightarrow> (number \<rightharpoonup> image) \<Rightarrow> nat \<Rightarrow> diagnostic list" where
  "gapAt doc s imap i =
     (if i > 0 \<and> notIdentical (s ! i) (plusOne (s ! (i - 1)))
      then (case imap (s ! i) of
              Some img \<Rightarrow> [gapDiagnostic doc img (s ! (i - 1)) (s ! i)]
            | None \<Rightarrow> [])
      else [])"

definition mkDocument :: "string \<Rightarrow> string \<Rightarrow> document" where
  "mkDocument t name =
     \<lparr>doc_text = t, doc_fileName = name, doc_uri = ''file://'' @ name, doc_languageId = ''html''\<rparr>"

definition text1223 :: string where
  "text1223 = ''<img src=\"d_files/01.png\"><img src=\"d_files/02.png\"><img src=\"d_files/02.png\"><img src=\"d_files/03.png\">''"

definition imageCode :: "diagnostic \<Rightarrow> bool" where
  "imageCode d =
     (case d_code d of
        None \<Rightarrow> True
      | Some c \<Rightarrow> fix_value c = ''fix-image-tag-typo'' \<or> fix_value c = ''fix-image-folder'')"

definition textMixed :: string where
  "textMixed = ''<p align=\"right\"><b>(Total for question = 5 mark)</b></p><img src=\"x/02.png\">''"

definition docHtml :: document where
  "docHtml = \<lparr>doc_text = textMixed, doc_fileName = ''/w/lesson5.html'',
               doc_uri = ''file:///w/lesson5.html'', doc_languageId = ''html''\<rparr>"

definition docPhp :: document where
  "docPhp = \<lparr>doc_text = textMixed, doc_fileName = ''/w/lesson5.html'',
              doc_uri = ''file:///w/lesson5.html'', doc_languageId = ''php''\<rparr>"

definition markDiag5 :: diagnostic where
  "markDiag5 =
     \<lparr>d_range = \<lparr>r_start = 0, r_end = 57\<rparr>,
      d_message = ''Use \"marks\" for 5 points'',
      d_severity = Warning,
      d_source = ''Educational Validator'',
      d_code = Some \<lparr>fix_value = ''fix-mark-marks'', fix_uri = ''DOCUMENT_URI_PLACEHOLDER'',
                       fix_range = \<lparr>r_start = 0, r_end = 57\<rparr>,
                       fix_text = ''<p align=\"right\"><b>(Total for question = 5 marks)</b></p>''\<rparr>\<rparr>"

definition folderDiag02 :: diagnostic where
  "folderDiag02 =
     \<lparr>d_range = \<lparr>r_start = 57, r_end = 77\<rparr>,
      d_message = ''Image source should be in \"lesson5_files\" folder'',
      d_severity = Warning,
      d_source = ''Educational Validator'',
      d_code = Some \<lparr>fix_value = ''fix-image-folder'', fix_uri = ''file:///w/lesson5.html'',
                       fix_range = \<lparr>r_start = 57, r_end = 77\<rparr>,
                       fix_text = ''<img src=\"lesson5_files/02.png\">''\<rparr>\<rparr>"

definition startDiag02 :: diagnostic where
  "startDiag02 =
     \<lparr>d_range = \<lparr>r_start = 57, r_end = 77\<rparr>,
      d_message = ''Image numbering should start with 01, found 02'',
      d_severity = Warning,
      d_source = ''Educational Validator'',
      d_code = None\<rparr>"




definition srcImage :: "rmatch \<Rightarrow> image" where
  "srcImage mt = \<lparr>i_fullMatch = m_text mt, i_src = group mt 1, i_index = m_index mt,
                   i_hasScAttribute = False\<rparr>"

definition scImage :: "rmatch \<Rightarrow> image" where
  "scImage mt = \<lparr>i_fullMatch = m_text mt, i_src = group mt 1, i_index = m_index mt,
                  i_hasScAttribute = True\<rparr>"

definition textOrder :: string where
  "textOrder = ''<img sc=\"a\"><img src=\"b\"><img src=\"c\">''"






definition textBare :: string where
  "textBare = ''look: a_files/1.png, and more text''"

definition textTwoBare :: string where
  "textTwoBare = ''a_files/1.png'' @ replicate 20 CHR '' '' @ ''a_files/1.png''"

definition textZero :: string where
  "textZero = ''<p align=\"right\"><b>(Total for question = 0 mark)</b></p>''"

definition textZeroFixed :: string where
  "textZeroFixed = ''<p align=\"right\"><b>(Total for question = 0 marks)</b></p>''"

definition textBigDup :: string where
  "textBigDup = ''<img src=\"d_files/1000000000000000000000.png\"><img src=\"d_files/1000000000000000000000.png\">''"

definition imgBig1 :: image where
  "imgBig1 = \<lparr>i_fullMatch = ''<img src=\"d_files/1000000000000000000000.png\">'',
               i_src = ''d_files/1000000000000000000000.png'', i_index = 0, i_hasScAttribute = False\<rparr>"

definition imgBig2 :: image where
  "imgBig2 = \<lparr>i_fullMatch = ''<img src=\"d_files/1000000000000000000000.png\">'',
               i_src = ''d_files/1000000000000000000000.png'', i_index = 46, i_hasScAttribute = False\<rparr>"

definition textRounded :: string where
  "textRounded = ''<img src=\"r_files/9007199254740993.png\"><img src=\"r_files/9007199254740993.png\">''"

definition imgRounded1 :: image where
  "imgRounded1 = \<lparr>i_fullMatch = ''<img src=\"r_files/9007199254740993.png\">'',
                   i_src = ''r_files/9007199254740993.png'', i_index = 0, i_hasScAttribute = False\<rparr>"

definition imgRounded2 :: image where
  "imgRounded2 = \<lparr>i_fullMatch = ''<img src=\"r_files/9007199254740993.png\">'',
                   i_src = ''r_files/9007199254740993.png'', i_index = 40, i_hasScAttribute = False\<rparr>"

definition textExact :: string where
  "textExact = ''<img src=\"g_files/9007199254740992.png\"><img src=\"g_files/9007199254740992.png\">''"

definition imgExact1 :: image where
  "imgExact1 = \<lparr>i_fullMatch = ''<img src=\"g_files/9007199254740992.png\">'',
                 i_src = ''g_files/9007199254740992.png'', i_index = 0, i_hasScAttribute = False\<rparr>"

definition imgExact2 :: image where
  "imgExact2 = \<lparr>i_fullMatch = ''<img src=\"g_files/9007199254740992.png\">'',
                 i_src = ''g_files/9007199254740992.png'', i_index = 40, i_hasScAttribute = False\<rparr>"

section \<open>The matcher, the scans and the numbers\<close>

text \<open>
  Evaluation rules for the character functions, the bounds on what a match returns, and the
  round trip between \<open>show_nat\<close> and \<open>parseInt10\<close>.
\<close>

lemma to_upper_code [code]:
  "to_upper (Char b0 b1 b2 b3 b4 b5 b6 b7) =
     (if \<not> b7 \<and> b6 \<and> b5 \<and> (b0 \<or> b1 \<or> b2 \<or> b3 \<or> b4) \<and> \<not> (b4 \<and> b3 \<and> (b2 \<or> (b1 \<and> b0)))
      then Char b0 b1 b2 b3 b4 False b6 b7 else Char b0 b1 b2 b3 b4 b5 b6 b7)"
  by (cases b0; cases b1; cases b2; cases b3; cases b4; cases b5; cases b6; cases b7)
     (simp_all add: to_upper_def lower_letters_def upper_letters_def)

lemma to_lower_code [code]:
  "to_lower (Char b0 b1 b2 b3 b4 b5 b6 b7) =
     (if \<not> b7 \<and> b6 \<and> \<not> b5 \<and> (b0 \<or> b1 \<or> b2 \<or> b3 \<or> b4) \<and> \<not> (b4 \<and> b3 \<and> (b2 \<or> (b1 \<and> b0)))
      then Char b0 b1 b2 b3 b4 True b6 b7 else Char b0 b1 b2 b3 b4 b5 b6 b7)"
  by (cases b0; cases b1; cases b2; cases b3; cases b4; cases b5; cases b6; cases b7)
     (simp_all add: to_lower_def lower_letters_def upper_letters_def)

lemma is_digit_code [code]:
  "is_digit (Char b0 b1 b2 b3 b4 b5 b6 b7) =
     (\<not> b7 \<and> \<not> b6 \<and> b5 \<and> b4 \<and> \<not> (b3 \<and> (b2 \<or> b1)))"
  by (cases b0; cases b1; cases b2; cases b3; cases b4; cases b5; cases b6; cases b7)
     (simp_all add: is_digit_def)

lemma is_word_code [code]:
  "is_word (Char b0 b1 b2 b3 b4 b5 b6 b7) =
     (\<not> b7 \<and>
      ((b6 \<and> (b0 \<or> b1 \<or> b2 \<or> b3 \<or> b4) \<and> \<not> (b4 \<and> b3 \<and> (b2 \<or> (b1 \<and> b0))))
       \<or> (\<not> b6 \<and> b5 \<and> b4 \<and> \<not> (b3 \<and> (b2 \<or> b1)))
       \<or> (b6 \<and> \<not> b5 \<and> b4 \<and> b3 \<and> b2 \<and> b1 \<and> b0)))"
  by (cases b0; cases b1; cases b2; cases b3; cases b4; cases b5; cases b6; cases b7)
     (simp_all add: is_word_def is_digit_def lower_letters_def upper_letters_def)



lemma m_length: "m ic k s cs = Some (s', cs') \<Longrightarrow> length s' \<le> length s"
proof (induction ic k s cs arbitrary: s' cs' rule: m.induct)
  case (1 ic s cs)
  then show ?case by simp
next
  case (2 ic c k s cs)
  show ?case
  proof (cases s)
    case Nil
    with "2.prems" show ?thesis by simp
  next
    case (Cons x xs)
    with "2.prems" have c: "in_class ic c x" and mm: "m ic k xs cs = Some (s', cs')"
      by (simp_all split: if_splits)
    from "2.IH"[OF Cons c mm] Cons show ?thesis by simp
  qed
next
  case (3 ic a b k s cs)
  then show ?case by (simp only: m.simps)
next
  case (4 ic a b k s cs)
  show ?case
  proof (cases "m ic (R a # k) s cs")
    case None
    with "4.prems" have "m ic (R b # k) s cs = Some (s', cs')" by simp
    from "4.IH"(2)[OF None this] show ?thesis .
  next
    case (Some r)
    with "4.prems" have "m ic (R a # k) s cs = Some (s', cs')" by simp
    from "4.IH"(1)[OF this] show ?thesis .
  qed
next
  case (5 ic c k s cs)
  show ?case
  proof (cases s)
    case Nil
    with "5.prems" have "m ic k s cs = Some (s', cs')" by simp
    from "5.IH"(1)[OF Nil this] show ?thesis .
  next
    case (Cons x xs)
    show ?thesis
    proof (cases "in_class ic c x")
      case False
      with Cons "5.prems" have "m ic k s cs = Some (s', cs')" by simp
      from "5.IH"(4)[OF Cons False this] show ?thesis .
    next
      case True
      show ?thesis
      proof (cases "m ic (R (Star c) # k) xs cs")
        case None
        with True Cons "5.prems" have "m ic k s cs = Some (s', cs')" by simp
        from "5.IH"(3)[OF Cons True None this] show ?thesis .
      next
        case (Some r)
        with True Cons "5.prems" have "m ic (R (Star c) # k) xs cs = Some (s', cs')" by simp
        from "5.IH"(2)[OF Cons True this] Cons show ?thesis by simp
      qed
    qed
  qed
next
  case (6 ic c k s cs)
  show ?case
  proof (cases "m ic k s cs")
    case (Some r)
    with "6.prems" have "m ic k s cs = Some (s', cs')" by simp
    from "6.IH"(1)[OF this] show ?thesis .
  next
    case None
    show ?thesis
    proof (cases s)
      case Nil
      with None "6.prems" show ?thesis by simp
    next
      case (Cons x xs)
      with None "6.prems" have c: "in_class ic c x"
        and mm: "m ic (R (Lazy c) # k) xs cs = Some (s', cs')"
        by (simp_all split: if_splits)
      from "6.IH"(2)[OF None Cons c mm] Cons show ?thesis by simp
    qed
  qed
next
  case (7 ic i r k s cs)
  then show ?case by (simp only: m.simps)
next
  case (8 ic k s cs)
  then show ?case by (simp only: m.simps)
next
  case (9 ic i s0 k s cs)
  then show ?case by (simp only: m.simps)
qed

lemma fold_push:
  "fold (\<lambda>x ds. if P x then ds @ [f x] else ds) xs ds = ds @ map f (filter P xs)"
  by (induction xs arbitrary: ds) auto

lemma search_index: "search ic r s i = Some mt \<Longrightarrow> i \<le> m_index mt"
proof (induction s arbitrary: i)
  case Nil
  then show ?case by (auto split: option.splits)
next
  case (Cons x xs)
  show ?case
  proof (cases "match_here ic r (x # xs)")
    case None
    with Cons.prems have "search ic r xs (Suc i) = Some mt" by simp
    from Cons.IH[OF this] show ?thesis by simp
  next
    case (Some a)
    with Cons.prems show ?thesis by (cases a) auto
  qed
qed

lemma search_text:
  "search ic r s i = Some mt \<Longrightarrow>
     \<exists>k. m_text mt = take k (drop (m_index mt - i) s) \<and> m_index mt - i \<le> length s"
proof (induction s arbitrary: i)
  case Nil
  then show ?case by (auto split: option.splits)
next
  case (Cons x xs)
  show ?case
  proof (cases "match_here ic r (x # xs)")
    case None
    with Cons.prems have s: "search ic r xs (Suc i) = Some mt" by simp
    from Cons.IH[OF s] obtain k where k: "m_text mt = take k (drop (m_index mt - Suc i) xs)"
      "m_index mt - Suc i \<le> length xs" by blast
    from search_index[OF s] have "m_index mt - i = Suc (m_index mt - Suc i)" by simp
    with k show ?thesis by auto
  next
    case (Some a)
    with Cons.prems show ?thesis by (cases a) (auto intro: exI[of _ "Suc _"])
  qed
qed


lemma search_Some:
  "search ic r s i = Some mt \<Longrightarrow>
     \<exists>j s' cs. m_index mt = i + j \<and> j \<le> length s
        \<and> match_here ic r (drop j s) = Some (s', cs)
        \<and> m_text mt = take (length (drop j s) - length s') (drop j s)
        \<and> m_caps mt = cs
        \<and> (\<forall>j'<j. match_here ic r (drop j' s) = None)"
proof (induction s arbitrary: i)
  case Nil
  then show ?case by (auto split: option.splits)
next
  case (Cons x xs)
  show ?case
  proof (cases "match_here ic r (x # xs)")
    case None
    with Cons.prems have s: "search ic r xs (Suc i) = Some mt" by simp
    from Cons.IH[OF s] obtain j s' cs where j: "m_index mt = Suc i + j" "j \<le> length xs"
      "match_here ic r (drop j xs) = Some (s', cs)"
      "m_text mt = take (length (drop j xs) - length s') (drop j xs)" "m_caps mt = cs"
      "\<forall>j'<j. match_here ic r (drop j' xs) = None" by blast
    have "\<forall>j'<Suc j. match_here ic r (drop j' (x # xs)) = None"
    proof (intro allI impI)
      fix j' assume "j' < Suc j"
      then show "match_here ic r (drop j' (x # xs)) = None"
        using None j(6) by (cases j') auto
    qed
    with j show ?thesis
      by (intro exI[of _ "Suc j"] exI[of _ s'] exI[of _ cs]) simp
  next
    case (Some a)
    obtain s' cs where a: "a = (s', cs)" by (cases a)
    with Some Cons.prems show ?thesis
      by (intro exI[of _ 0] exI[of _ s'] exI[of _ cs]) auto
  qed
qed

lemma exec_Some:
  assumes "exec ic r text i = Some mt"
  shows "\<exists>j s' cs. i \<le> j \<and> j \<le> length text \<and> m_index mt = j
        \<and> match_here ic r (drop j text) = Some (s', cs)
        \<and> m_text mt = take (length (drop j text) - length s') (drop j text)
        \<and> m_caps mt = cs"
proof -
  from assms have le: "i \<le> length text" and s: "search ic r (drop i text) i = Some mt"
    by (auto simp: exec_def split: if_splits)
  from search_Some[OF s] obtain j s' cs where j: "m_index mt = i + j" "j \<le> length (drop i text)"
      "match_here ic r (drop j (drop i text)) = Some (s', cs)"
      "m_text mt = take (length (drop j (drop i text)) - length s') (drop j (drop i text))"
      "m_caps mt = cs" by blast
  have d: "drop j (drop i text) = drop (i + j) text" by (simp add: add.commute)
  from j le show ?thesis
    unfolding d by (intro exI[of _ "i + j"] exI[of _ s'] exI[of _ cs]) auto
qed

lemma exec_index: "exec ic r text i = Some mt \<Longrightarrow> i \<le> m_index mt"
  using exec_Some by blast

lemma exec_all_bounds:
  "sorted_wrt (\<lambda>a b. m_index a + length (m_text a) \<le> m_index b) (exec_all ic r t i)
   \<and> (\<forall>mt\<in>set (exec_all ic r t i). i \<le> m_index mt)"
proof (induction ic r t i rule: exec_all.induct)
  case (1 ic r t i)
  show ?case
  proof (cases "exec ic r t i")
    case None
    then show ?thesis by (simp add: exec_all.simps[of ic r t i])
  next
    case (Some mt)
    show ?thesis
    proof (cases "m_index mt + length (m_text mt) \<le> i")
      case True
      with Some show ?thesis by (simp add: exec_all.simps[of ic r t i])
    next
      case False
      have e: "exec_all ic r t i = mt # exec_all ic r t (m_index mt + length (m_text mt))"
        using Some False by (simp add: exec_all.simps[of ic r t i])
      from "1.IH"[OF Some False] exec_index[OF Some] False
      show ?thesis unfolding e by fastforce
    qed
  qed
qed

lemma exec_all_text:
  "mt \<in> set (exec_all ic r t i) \<Longrightarrow> \<exists>j k. j \<le> length t \<and> m_text mt = take k (drop j t)"
proof (induction ic r t i rule: exec_all.induct)
  case (1 ic r t i)
  show ?case
  proof (cases "exec ic r t i")
    case None
    with "1.prems" show ?thesis by (simp add: exec_all.simps[of ic r t i])
  next
    case (Some mt')
    show ?thesis
    proof (cases "m_index mt' + length (m_text mt') \<le> i")
      case True
      with Some "1.prems" show ?thesis by (simp add: exec_all.simps[of ic r t i])
    next
      case False
      with Some "1.prems" have "mt = mt' \<or> mt \<in> set (exec_all ic r t (m_index mt' + length (m_text mt')))"
        by (simp add: exec_all.simps[of ic r t i])
      then show ?thesis
      proof
        assume "mt = mt'"
        with exec_Some[OF Some] show ?thesis by blast
      next
        assume "mt \<in> set (exec_all ic r t (m_index mt' + length (m_text mt')))"
        from "1.IH"[OF Some False this] show ?thesis .
      qed
    qed
  qed
qed

lemma digit_val_digit_char: "d < 10 \<Longrightarrow> digit_val (digit_char d) = d"
proof -
  assume "d < 10"
  then have "d \<in> {0, 1, 2, 3, 4, 5, 6, 7, 8, 9}" by auto
  then show ?thesis
    by (elim insertE emptyE) (simp_all add: digit_val_def digit_char_def)
qed

lemma is_digit_digit_char: "d < 10 \<Longrightarrow> is_digit (digit_char d)"
proof -
  assume "d < 10"
  then have "d \<in> {0, 1, 2, 3, 4, 5, 6, 7, 8, 9}" by auto
  then show ?thesis
    by (elim insertE emptyE) (simp_all add: is_digit_def digit_char_def)
qed

lemma show_nat_digits: "list_all is_digit (show_nat n)"
proof (induction n rule: show_nat.induct)
  case (1 n)
  show ?case
  proof (cases "n < 10")
    case True
    then show ?thesis by (simp add: show_nat.simps[of n] is_digit_digit_char)
  next
    case False
    with 1 show ?thesis by (simp add: show_nat.simps[of n] is_digit_digit_char)
  qed
qed

lemma show_nat_nonempty: "show_nat n \<noteq> []"
  by (simp add: show_nat.simps[of n])

lemma decimal_show_nat: "decimal (show_nat n) = n"
proof (induction n rule: show_nat.induct)
  case (1 n)
  show ?case
  proof (cases "n < 10")
    case True
    then show ?thesis by (simp add: decimal_def show_nat.simps[of n] digit_val_digit_char)
  next
    case False
    with 1 show ?thesis
      by (simp add: decimal_def show_nat.simps[of n] digit_val_digit_char)
  qed
qed

lemma show_nat_inj: "show_nat a = show_nat b \<Longrightarrow> a = b"
  by (metis decimal_show_nat)

lemma takeWhile_show_nat: "takeWhile is_digit (show_nat n) = show_nat n"
  using show_nat_digits[of n] by (simp add: list_all_iff takeWhile_eq_all_conv)

lemma toDouble_safe: "n < 9007199254740992 \<Longrightarrow> toDouble n = Fin n"
  by (simp add: toDouble_def)

lemma parseInt10_show_nat: "n < 9007199254740992 \<Longrightarrow> parseInt10 (show_nat n) = Fin n"
  by (simp add: parseInt10_def takeWhile_show_nat show_nat_nonempty decimal_show_nat toDouble_safe)

lemma numToString_safe: "n \<le> 9007199254740992 \<Longrightarrow> numToString (Fin n) = show_nat n"
  by (simp add: numToString_def)

lemma round53_bound: "round53 9007199254740992 = 9007199254740992"
  by (simp add: round53_def expo.simps Let_def)

lemma toDouble_bound: "toDouble 9007199254740992 = Fin 9007199254740992"
  by (simp add: toDouble_def round53_bound)

lemma plusOne_safe: "n < 9007199254740992 \<Longrightarrow> plusOne (Fin n) = Fin (n + 1)"
proof (cases "n + 1 < 9007199254740992")
  case True
  then show ?thesis by (simp add: toDouble_safe)
next
  case False
  assume "n < 9007199254740992"
  with False have "n + 1 = 9007199254740992" by simp
  then show ?thesis by (simp add: toDouble_bound)
qed

lemma notIdentical_plusOne: "n < 9007199254740992 \<Longrightarrow> notIdentical (Fin n) (plusOne (Fin n))"
  using plusOne_safe[of n] by (simp add: notIdentical_def del: plusOne.simps)

lemma round53_small: "n < 9007199254740992 \<Longrightarrow> round53 n = n"
  by (simp add: round53_def expo.simps[of n])

lemma round53_large: "round53 c = v \<Longrightarrow> 9007199254740992 < v \<Longrightarrow> 9007199254740992 \<le> c"
  using round53_small[of c] by (cases "c < 9007199254740992") simp_all

lemma shortestFrom_large:
  "9007199254740992 < v \<Longrightarrow> 9007199254740992 \<le> shortestFrom v nd k"
proof (induction v nd k rule: shortestFrom.induct)
  case (1 v nd k)
  let ?u = "10 ^ (nd - k) :: nat"
  let ?lo = "(v div ?u) * ?u"
  let ?hi = "?lo + ?u"
  show ?case
  proof (cases "nd \<le> k")
    case True
    with "1.prems" show ?thesis by (simp add: shortestFrom.simps[of v nd k])
  next
    case False
    note nk = False
    show ?thesis
    proof (cases "round53 ?lo = v")
      case True
      from round53_large[OF True "1.prems"] have lo: "9007199254740992 \<le> ?lo" .
      then have hi: "9007199254740992 \<le> ?hi" by simp
      from nk True lo hi show ?thesis
        by (simp add: shortestFrom.simps[of v nd k] Let_def)
    next
      case False
      note nlo = False
      show ?thesis
      proof (cases "?hi < 10 ^ nd \<and> round53 ?hi = v")
        case True
        then have "round53 ?hi = v" by simp
        from round53_large[OF this "1.prems"] have "9007199254740992 \<le> ?hi" .
        with nk nlo True show ?thesis
          by (simp add: shortestFrom.simps[of v nd k] Let_def)
      next
        case False
        from "1.IH"[OF nk refl refl refl refl refl _ _ _ "1.prems"] nlo False
        have "9007199254740992 \<le> shortestFrom v nd (Suc k)" by simp
        with nk nlo False show ?thesis
          by (auto simp: shortestFrom.simps[of v nd k] Let_def)
      qed
    qed
  qed
qed

lemma e_not_digit: "\<not> is_digit CHR ''e''"
  by (simp add: is_digit_def)

lemma exponentForm_e: "CHR ''e'' \<in> set (exponentForm ds)"
  by (simp add: exponentForm_def)

lemma not_digits_show_nat: "c \<in> set s \<Longrightarrow> \<not> is_digit c \<Longrightarrow> s \<noteq> show_nat n"
  using show_nat_digits[of n] by (auto simp: list_all_iff)

lemma numToString_large:
  assumes "9007199254740992 < v"
  shows "CHR ''e'' \<in> set (numToString (Fin v))
         \<or> (\<exists>c. 9007199254740992 \<le> c \<and> numToString (Fin v) = show_nat c)"
proof -
  let ?nd = "length (show_nat v)"
  let ?c = "if round53 (10 ^ ?nd) = v then 10 ^ ?nd else shortestFrom v ?nd 1"
  have c: "9007199254740992 \<le> ?c"
    using round53_large[of "10 ^ ?nd" v] shortestFrom_large[OF assms, of ?nd 1] assms by simp
  have "numToString (Fin v)
        = (if length (show_nat ?c) \<le> 21 then show_nat ?c else exponentForm (show_nat ?c))"
    using assms by (simp add: numToString_def Let_def)
  with c exponentForm_e[of "show_nat ?c"] show ?thesis by (cases "length (show_nat ?c) \<le> 21") auto
qed

lemma numToString_show_nat:
  assumes "numToString x = show_nat n" and "n < 9007199254740992"
  shows "x = Fin n"
proof (cases x)
  case NaN
  have "CHR ''N'' \<in> set ''NaN''" "\<not> is_digit CHR ''N''" by (simp_all add: is_digit_def)
  from not_digits_show_nat[OF this] assms(1) NaN show ?thesis by (simp add: numToString_def)
next
  case Infinity
  have "CHR ''I'' \<in> set ''Infinity''" "\<not> is_digit CHR ''I''" by (simp_all add: is_digit_def)
  from not_digits_show_nat[OF this] assms(1) Infinity show ?thesis by (simp add: numToString_def)
next
  case (Fin v)
  show ?thesis
  proof (cases "v \<le> 9007199254740992")
    case True
    with assms(1) Fin have "show_nat v = show_nat n" by (simp add: numToString_safe)
    with Fin show ?thesis by (simp add: show_nat_inj)
  next
    case False
    then have "9007199254740992 < v" by simp
    from numToString_large[OF this] show ?thesis
    proof
      assume "CHR ''e'' \<in> set (numToString (Fin v))"
      from not_digits_show_nat[OF this e_not_digit] assms(1) Fin show ?thesis by simp
    next
      assume "\<exists>c. 9007199254740992 \<le> c \<and> numToString (Fin v) = show_nat c"
      then obtain c where c: "9007199254740992 \<le> c" "numToString (Fin v) = show_nat c" by blast
      with assms(1) Fin have "show_nat c = show_nat n" by simp
      then have "c = n" by (rule show_nat_inj)
      with c(1) assms(2) show ?thesis by simp
    qed
  qed
qed

lemma exponentForm_no_space:
  assumes "list_all is_digit ds"
  shows "CHR '' '' \<notin> set (exponentForm ds)"
proof -
  have sp: "\<not> is_digit CHR '' ''" by (simp add: is_digit_def)
  have sub: "set (rev (dropWhile (\<lambda>c. c = CHR ''0'') (rev ds))) \<subseteq> set ds"
    using set_dropWhileD by fastforce
  have a: "CHR '' '' \<notin> set ds" using assms sp by (auto simp: list_all_iff)
  have b: "CHR '' '' \<notin> set (show_nat (length ds - 1))"
    using show_nat_digits[of "length ds - 1"] sp by (auto simp: list_all_iff)
  show ?thesis
  proof (cases "rev (dropWhile (\<lambda>c. c = CHR ''0'') (rev ds))")
    case Nil
    show ?thesis unfolding exponentForm_def Nil using b by simp
  next
    case (Cons d rest)
    with sub a have "d \<noteq> CHR '' ''" "CHR '' '' \<notin> set rest" by auto
    then show ?thesis unfolding exponentForm_def Cons using b by simp
  qed
qed

lemma numToString_no_space: "CHR '' '' \<notin> set (numToString x)"
proof (cases x)
  case NaN
  then show ?thesis by (simp add: numToString_def)
next
  case Infinity
  then show ?thesis by (simp add: numToString_def)
next
  case (Fin v)
  have sp: "\<not> is_digit CHR '' ''" by (simp add: is_digit_def)
  have d: "CHR '' '' \<notin> set (show_nat c)" for c
    using show_nat_digits[of c] sp by (auto simp: list_all_iff)
  show ?thesis
    unfolding Fin
    by (simp add: numToString_def Let_def d exponentForm_no_space show_nat_digits)
qed

lemma expo_quotient:
  "9007199254740992 \<le> a \<Longrightarrow> 0 < expo a \<and> 4503599627370496 \<le> a div 2 ^ expo a"
proof (induction a rule: expo.induct)
  case (1 k)
  show ?case
  proof (cases "k div 2 < 9007199254740992")
    case True
    with "1.prems" have "expo k = 1"
      by (simp add: expo.simps[of k] expo.simps[of "k div 2"])
    with "1.prems" show ?thesis by simp
  next
    case False
    with "1.prems" "1.IH" have ih: "4503599627370496 \<le> (k div 2) div 2 ^ expo (k div 2)"
      by simp
    from "1.prems" have "expo k = Suc (expo (k div 2))" by (simp add: expo.simps[of k])
    with ih show ?thesis by (simp add: div_mult2_eq)
  qed
qed

lemma round53_ge:
  assumes "9007199254740992 \<le> a"
  shows "9007199254740992 \<le> round53 a"
proof -
  let ?e = "expo a"
  let ?q = "a div 2 ^ ?e"
  from expo_quotient[OF assms] have e: "0 < ?e" and q: "4503599627370496 \<le> ?q" by simp_all
  from e obtain e' where e': "?e = Suc e'" by (cases ?e) simp_all
  from q have "9007199254740992 \<le> ?q * 2" by simp
  also have "\<dots> \<le> ?q * 2 ^ ?e" unfolding e' by simp
  also have "\<dots> \<le> round53 a" by (simp add: round53_def Let_def)
  finally show ?thesis .
qed

lemma toDouble_exact:
  assumes "toDouble a = Fin n" and "n < 9007199254740992"
  shows "a = n"
proof (cases "a < 9007199254740992")
  case True
  with assms(1) show ?thesis by (simp add: toDouble_def)
next
  case False
  then have "9007199254740992 \<le> round53 a" by (intro round53_ge) simp
  moreover from False assms(1) have "round53 a = n" by (simp add: toDouble_def split: if_splits)
  ultimately show ?thesis using assms(2) by simp
qed

lemma insertNumber_Fin: "insertNumber (Fin x) (map Fin ys) = map Fin (insort x ys)"
  by (induction ys) auto

lemma sortNumbers_Fin: "sortNumbers (map Fin xs) = map Fin (sort xs)"
  by (induction xs) (simp_all add: sortNumbers_def sort_key_def insertNumber_Fin)


section \<open>The numbering check as a list of contributions\<close>

lemma fold_concat:
  "fold (\<lambda>x ds. ds @ g x) xs ds = ds @ concat (map g xs)"
  by (induction xs arbitrary: ds) auto

lemma collectNumbers_snoc:
  "collectNumbers (images @ [img]) =
     (case collectNumbers images of
        (nums, imap) \<Rightarrow>
          (case imageNumber img of
             Some number \<Rightarrow> (nums @ [number], imap(number \<mapsto> img))
           | None \<Rightarrow> (nums, imap)))"
  by (simp add: collectNumbers_def split: prod.splits)

lemma collectNumbers_eq:
  "collectNumbers images = (List.map_filter imageNumber images, lastImage images)"
proof (induction images rule: rev_induct)
  case Nil
  show ?case by (simp add: collectNumbers_def List.map_filter_def lastImage_def)
next
  case (snoc img images)
  show ?case
  proof (cases "imageNumber img")
    case None
    have "lastImage (images @ [img]) = lastImage images"
      using None by (intro ext) (simp add: lastImage_def)
    with None snoc show ?thesis
      by (simp add: collectNumbers_snoc List.map_filter_def)
  next
    case (Some number)
    have "lastImage (images @ [img]) = (lastImage images)(number \<mapsto> img)"
    proof
      fix n
      show "lastImage (images @ [img]) n = ((lastImage images)(number \<mapsto> img)) n"
        using Some by (simp add: lastImage_def)
    qed
    with Some snoc show ?thesis
      by (auto simp: collectNumbers_snoc List.map_filter_def fun_eq_iff)
  qed
qed

lemma lastImage_Some:
  "n \<in> set (List.map_filter imageNumber images) \<Longrightarrow>
     lastImage images n = Some (last (filter (\<lambda>img. imageNumber img = Some n) images))"
proof -
  assume "n \<in> set (List.map_filter imageNumber images)"
  then obtain img where "img \<in> set images" "imageNumber img = Some n"
    by (auto simp: List.map_filter_def)
  then have "filter (\<lambda>img. imageNumber img = Some n) images \<noteq> []"
    by (auto simp: filter_empty_conv)
  then show ?thesis by (simp add: lastImage_def)
qed

lemma bump_keys: "fst ` set (bump k xs) = insert k (fst ` set xs)"
  by (induction k xs rule: bump.induct) (simp_all add: insert_commute)

lemma bump_distinct: "distinct (map fst xs) \<Longrightarrow> distinct (map fst (bump k xs))"
proof (induction xs)
  case Nil
  then show ?case by simp
next
  case (Cons a xs)
  obtain k' c where a: "a = (k', c)" by (cases a)
  from Cons bump_keys[of k xs] show ?case
    unfolding a by (auto simp: image_iff) 
qed

lemma bump_map_of:
  "map_of (bump k xs) = (map_of xs)(k \<mapsto> (case map_of xs k of None \<Rightarrow> 1 | Some c \<Rightarrow> c + 1))"
  by (induction xs) (auto simp: fun_eq_iff)

lemma countNumbers_snoc: "countNumbers (nums @ [x]) = bump (numToString x) (countNumbers nums)"
  by (simp add: countNumbers_def)

lemma countNumbers_distinct: "distinct (map fst (countNumbers nums))"
  by (induction nums rule: rev_induct)
     (simp_all add: countNumbers_snoc bump_distinct, simp add: countNumbers_def)

lemma countNumbers_keys: "fst ` set (countNumbers nums) = numToString ` set nums"
  by (induction nums rule: rev_induct)
     (simp_all add: countNumbers_snoc bump_keys, simp add: countNumbers_def)

lemma countNumbers_map_of:
  assumes "\<And>x. x \<in> set nums \<Longrightarrow> numToString x = numToString n \<Longrightarrow> x = n"
  shows "map_of (countNumbers nums) (numToString n) =
     (if n \<in> set nums then Some (count_list nums n) else None)"
  using assms
proof (induction nums rule: rev_induct)
  case Nil
  show ?case by (simp add: countNumbers_def)
next
  case (snoc x nums)
  then have ih: "map_of (countNumbers nums) (numToString n) =
     (if n \<in> set nums then Some (count_list nums n) else None)"
    by simp
  show ?case
  proof (cases "x = n")
    case True
    with ih show ?thesis
      by (simp add: countNumbers_snoc bump_map_of)
  next
    case False
    then have "numToString x \<noteq> numToString n"
      using snoc.prems[of x] by auto
    with False ih show ?thesis
      by (simp add: countNumbers_snoc bump_map_of)
  qed
qed

lemma objectEntries_set: "set (objectEntries props) = set props"
  by (auto simp: objectEntries_def)

lemma objectEntries_distinct:
  assumes "distinct (map fst props)"
  shows "distinct (map fst (objectEntries props))"
proof -
  from assms have d: "distinct props" and i: "inj_on fst (set props)"
    by (simp_all add: distinct_map)
  have "distinct (objectEntries props)"
    using d by (auto simp: objectEntries_def)
  moreover have "inj_on fst (set (objectEntries props))"
    using i by (simp add: objectEntries_set)
  ultimately show ?thesis by (simp add: distinct_map)
qed


lemma remdups_length_distinct: "(length (remdups xs) = length xs) = distinct xs"
  by (metis distinct_remdups length_remdups_eq remdups_id_iff_distinct)

lemma checkDuplicates_eq:
  "checkDuplicates doc nums imap ds =
     ds @ (if distinct nums then []
           else concat (map (dupEntry doc imap) (objectEntries (countNumbers nums))))"
proof -
  have l: "(\<lambda>(num, count) ds.
              if count > 1
              then (case imap (parseInt10 num) of
                      Some img \<Rightarrow> ds @ [duplicateDiagnostic doc img num count]
                    | None \<Rightarrow> ds)
              else ds) = (\<lambda>e ds. ds @ dupEntry doc imap e)"
    by (auto simp: fun_eq_iff dupEntry_def split: option.splits)
  show ?thesis
    unfolding checkDuplicates_def l fold_concat
    by (simp add: remdups_length_distinct)
qed

lemma checkStart_app:
  "\<exists>ws. checkStart doc s imap ds = ds @ ws \<and> (\<forall>w\<in>set ws. d_severity w = Warning)"
  by (auto simp: checkStart_def startDiagnostic_def split: list.splits option.splits)

lemma checkSequence_eq:
  "checkSequence doc s imap ds = ds @ concat (map (gapAt doc s imap) [0..<length s])"
proof -
  have l: "(\<lambda>i ds.
             if i > 0 \<and> notIdentical (s ! i) (plusOne (s ! (i - 1)))
             then (case imap (s ! i) of
                     Some img \<Rightarrow> ds @ [gapDiagnostic doc img (s ! (i - 1)) (s ! i)]
                   | None \<Rightarrow> ds)
             else ds) = (\<lambda>i ds. ds @ gapAt doc s imap i)"
    by (intro ext) (simp add: gapAt_def split: option.splits)
  show ?thesis unfolding checkSequence_def l by (rule fold_concat)
qed

lemma gapAt_cases:
  "gapAt doc s imap i = [] \<or> (\<exists>img. gapAt doc s imap i = [gapDiagnostic doc img (s ! (i - 1)) (s ! i)])"
  by (auto simp: gapAt_def split: option.splits)

lemma gapAt_Warning: "w \<in> set (gapAt doc s imap i) \<Longrightarrow> d_severity w = Warning"
  using gapAt_cases[of doc s imap i] by (auto simp: gapDiagnostic_def)

lemma length_sortNumbers: "length (sortNumbers xs) = length xs"
proof -
  have "length (insertNumber x ys) = Suc (length ys)" for x ys
    by (induction ys) auto
  then show ?thesis by (induction xs) (simp_all add: sortNumbers_def)
qed

lemma validateImageNumbering_eq:
  "\<exists>ws. (\<forall>w\<in>set ws. d_severity w = Warning) \<and>
     validateImageNumbering doc images ds =
       ds @ (if List.map_filter imageNumber images = [] then []
             else (if distinct (List.map_filter imageNumber images) then []
                   else concat (map (dupEntry doc (lastImage images))
                          (objectEntries (countNumbers (List.map_filter imageNumber images)))))
                  @ ws
                  @ concat (map (gapAt doc (sortNumbers (List.map_filter imageNumber images)) (lastImage images))
                       [0..<length (List.map_filter imageNumber images)]))"
proof -
  let ?nums = "List.map_filter imageNumber images"
  let ?ds1 = "checkDuplicates doc ?nums (lastImage images) ds"
  obtain ws where ws: "checkStart doc (sortNumbers ?nums) (lastImage images) ?ds1 = ?ds1 @ ws"
    "\<forall>w\<in>set ws. d_severity w = Warning"
    using checkStart_app by blast
  show ?thesis
    using ws
    by (intro exI[of _ ws])
       (simp add: validateImageNumbering_def collectNumbers_eq checkSequence_eq checkDuplicates_eq
          Let_def length_sortNumbers)
qed

lemma not_digit_space: "\<not> is_digit CHR '' ''"
  by (simp add: is_digit_def)

lemma digits_sep:
  "list_all is_digit a \<Longrightarrow> CHR '' '' \<notin> set b \<Longrightarrow> a @ CHR '' '' # r = b @ CHR '' '' # r' \<Longrightarrow> a = b"
proof (induction a arbitrary: b)
  case Nil
  then show ?case by (cases b) auto
next
  case (Cons x a)
  then show ?case using not_digit_space by (cases b) auto
qed

lemma duplicate_message_inj:
  assumes "list_all is_digit k" "CHR '' '' \<notin> set k'"
    and "''Duplicate image number: '' @ k @ '' is used '' @ r = ''Duplicate image number: '' @ k' @ '' is used '' @ r'"
  shows "k = k'"
proof -
  from assms(3) have "k @ CHR '' '' # (''is used '' @ r) = k' @ CHR '' '' # (''is used '' @ r')"
    by simp
  from digits_sep[OF assms(1,2) this] show ?thesis .
qed

lemma concat_single:
  "distinct (map fst es) \<Longrightarrow> (k, c) \<in> set es \<Longrightarrow>
     concat (map (\<lambda>e. if fst e = k then [D] else []) es) = [D]"
proof (induction es)
  case Nil
  then show ?case by simp
next
  case (Cons e es)
  show ?case
  proof (cases "fst e = k")
    case True
    with Cons.prems have "\<forall>e'\<in>set es. fst e' \<noteq> k" by (auto simp: image_iff)
    then have "concat (map (\<lambda>e. if fst e = k then [D] else []) es) = []"
      by (induction es) auto
    with True show ?thesis by simp
  next
    case False
    with Cons.prems have "(k, c) \<in> set es" by auto
    with Cons False show ?thesis by simp
  qed
qed

lemma distinct_count_list_le: "distinct xs \<Longrightarrow> count_list xs x \<le> 1"
  by (induction xs) (auto simp: count_list_0_iff)

lemma count_list_pos_mem: "0 < count_list xs x \<Longrightarrow> x \<in> set xs"
  using count_list_0_iff[of xs x] by auto

lemma dupEntry_filter:
  assumes e: "e \<in> set (countNumbers nums)"
    and n: "1 < count_list nums (Fin n)"
    and nums: "nums = List.map_filter imageNumber images"
    and bn: "n < 9007199254740992"
  shows "filter (\<lambda>d. d_severity d = Error \<and>
                    (\<exists>c. d_message d = ''Duplicate image number: '' @ show_nat n @ '' is used ''
                                          @ show_nat c @ '' times''))
                (dupEntry doc (lastImage images) e)
         = (if fst e = show_nat n
            then [duplicateDiagnostic doc
                    (last (filter (\<lambda>img. imageNumber img = Some (Fin n)) images))
                    (show_nat n) (count_list nums (Fin n))]
            else [])"
proof -
  obtain k c where kc: "e = (k, c)" by (cases e)
  from n have mem: "Fin n \<in> set nums" by (intro count_list_pos_mem) simp
  have key: "numToString (Fin n) = show_nat n" using bn by (simp add: numToString_safe)
  from e kc have "k \<in> fst ` set (countNumbers nums)" by force
  then obtain x where x: "k = numToString x" "x \<in> set nums"
    by (auto simp: countNumbers_keys)
  from e kc countNumbers_distinct[of nums] have mo: "map_of (countNumbers nums) k = Some c"
    by simp
  show ?thesis
  proof (cases "k = show_nat n")
    case True
    have "map_of (countNumbers nums) (numToString (Fin n))
          = (if Fin n \<in> set nums then Some (count_list nums (Fin n)) else None)"
      by (rule countNumbers_map_of) (simp add: key numToString_show_nat[OF _ bn])
    with mo True mem have c: "c = count_list nums (Fin n)" by (simp add: key)
    from mem nums
    have li: "lastImage images (Fin n)
              = Some (last (filter (\<lambda>img. imageNumber img = Some (Fin n)) images))"
      by (simp add: lastImage_Some)
    have de: "dupEntry doc (lastImage images) e =
            [duplicateDiagnostic doc (last (filter (\<lambda>img. imageNumber img = Some (Fin n)) images))
               (show_nat n) (count_list nums (Fin n))]"
      using n bn by (simp add: dupEntry_def kc True c parseInt10_show_nat li)
    show ?thesis
      unfolding de using True kc by (auto simp: duplicateDiagnostic_def)
  next
    case False
    have "dupEntry doc (lastImage images) e = []
          \<or> (\<exists>img. dupEntry doc (lastImage images) e = [duplicateDiagnostic doc img k c])"
      by (auto simp: dupEntry_def kc split: option.splits)
    then show ?thesis
    proof
      assume "dupEntry doc (lastImage images) e = []"
      with False kc show ?thesis by simp
    next
      assume "\<exists>img. dupEntry doc (lastImage images) e = [duplicateDiagnostic doc img k c]"
      then obtain img where de: "dupEntry doc (lastImage images) e = [duplicateDiagnostic doc img k c]"
        by blast
      have "\<not> (\<exists>c'. d_message (duplicateDiagnostic doc img k c) =
               ''Duplicate image number: '' @ show_nat n @ '' is used '' @ show_nat c' @ '' times'')"
      proof
        assume "\<exists>c'. d_message (duplicateDiagnostic doc img k c) =
               ''Duplicate image number: '' @ show_nat n @ '' is used '' @ show_nat c' @ '' times''"
        then obtain c' where
          "''Duplicate image number: '' @ show_nat n @ '' is used '' @ (show_nat c' @ '' times'')
           = ''Duplicate image number: '' @ k @ '' is used '' @ (show_nat c @ '' times'')"
          by (auto simp: duplicateDiagnostic_def)
        from duplicate_message_inj[OF show_nat_digits _ this] x(1) numToString_no_space[of x]
        have "show_nat n = k" by simp
        with False show False by simp
      qed
      with False kc show ?thesis unfolding de by simp
    qed
  qed
qed

lemma minusPositive_trans:
  "y \<noteq> NaN \<Longrightarrow> \<not> minusPositive x y \<Longrightarrow> \<not> minusPositive y z \<Longrightarrow> \<not> minusPositive x z"
  by (cases x; cases y; cases z) auto

lemma minusPositive_asym: "minusPositive x y \<Longrightarrow> \<not> minusPositive y x"
  by (cases x; cases y) auto

lemma insertNumber_set: "set (insertNumber x ys) = insert x (set ys)"
  by (induction ys) auto

lemma insertNumber_sorted:
  assumes "NaN \<notin> set ys" and "sorted_wrt (\<lambda>a b. \<not> minusPositive a b) ys"
  shows "sorted_wrt (\<lambda>a b. \<not> minusPositive a b) (insertNumber x ys)"
  using assms
proof (induction ys)
  case Nil
  then show ?case by simp
next
  case (Cons y ys)
  show ?case
  proof (cases "minusPositive x y")
    case True
    from Cons have "sorted_wrt (\<lambda>a b. \<not> minusPositive a b) (insertNumber x ys)" by simp
    moreover from Cons.prems True have "\<forall>z\<in>set (insertNumber x ys). \<not> minusPositive y z"
      by (auto simp: insertNumber_set minusPositive_asym)
    ultimately show ?thesis using True by simp
  next
    case False
    from Cons.prems have y: "y \<noteq> NaN" by auto
    from Cons.prems False minusPositive_trans[OF y False]
    have "\<forall>z\<in>set (y # ys). \<not> minusPositive x z" by auto
    with Cons.prems False show ?thesis by simp
  qed
qed

lemma sortNumbers_set: "set (sortNumbers xs) = set xs"
  by (induction xs) (simp_all add: sortNumbers_def insertNumber_set)

lemma sortNumbers_sorted:
  "NaN \<notin> set xs \<Longrightarrow> sorted_wrt (\<lambda>a b. \<not> minusPositive a b) (sortNumbers xs)"
proof (induction xs)
  case Nil
  show ?case by (simp add: sortNumbers_def)
next
  case (Cons x xs)
  then have "sorted_wrt (\<lambda>a b. \<not> minusPositive a b) (sortNumbers xs)" by simp
  moreover from Cons.prems have "NaN \<notin> set (sortNumbers xs)" by (simp add: sortNumbers_set)
  ultimately have "sorted_wrt (\<lambda>a b. \<not> minusPositive a b) (insertNumber x (sortNumbers xs))"
    by (intro insertNumber_sorted)
  then show ?case by (simp add: sortNumbers_def)
qed

lemma count_list_insertNumber: "count_list (insertNumber x xs) y = count_list (x # xs) y"
  by (induction xs) auto

lemma count_list_sortNumbers: "count_list (sortNumbers xs) y = count_list xs y"
  by (induction xs) (simp_all add: sortNumbers_def count_list_insertNumber)

lemma sorted_dup_adjacent_number:
  "sorted_wrt (\<lambda>a b. \<not> minusPositive a b) xs \<Longrightarrow> NaN \<notin> set xs \<Longrightarrow>
     1 < count_list xs (Fin n) \<Longrightarrow>
     \<exists>i. Suc i < length xs \<and> xs ! i = Fin n \<and> xs ! Suc i = Fin n"
proof (induction xs)
  case Nil
  then show ?case by simp
next
  case (Cons a xs)
  show ?case
  proof (cases "a = Fin n")
    case True
    with Cons.prems(3) have "count_list xs (Fin n) \<noteq> 0" by simp
    then have mem: "Fin n \<in> set xs" by (simp add: count_list_0_iff)
    then obtain b ys where xs: "xs = b # ys" by (cases xs) auto
    from Cons.prems(1) True xs have ab: "\<not> minusPositive (Fin n) b" by simp
    from Cons.prems(2) xs have bn: "b \<noteq> NaN" by auto
    have "\<not> minusPositive b (Fin n)"
    proof (cases "b = Fin n")
      case True
      then show ?thesis by simp
    next
      case False
      with mem xs have "Fin n \<in> set ys" by simp
      with Cons.prems(1) xs show ?thesis by simp
    qed
    with ab bn have "b = Fin n" by (cases b) auto
    with True xs show ?thesis by (intro exI[of _ 0]) simp
  next
    case False
    with Cons.prems have "sorted_wrt (\<lambda>a b. \<not> minusPositive a b) xs" "NaN \<notin> set xs"
      "1 < count_list xs (Fin n)" by simp_all
    from Cons.IH[OF this] obtain i where "Suc i < length xs" "xs ! i = Fin n" "xs ! Suc i = Fin n"
      by blast
    then show ?thesis by (intro exI[of _ "Suc i"]) simp
  qed
qed


section \<open>Every rule appends to the diagnostics it is given\<close>

lemma markRule_validate_eq:
  "markRule_validate doc ds =
     ds @ map (\<lambda>mt. createDiagnostic (getMatchRange doc (q_index mt) (q_fullMatch mt)) (q_points mt))
            (filter (\<lambda>mt. \<not> isCorrectMarkUsage (q_points mt) (q_term mt))
               (findTotalQuestionMarks (doc_text doc)))"
  unfolding markRule_validate_def by (rule fold_push)

lemma checkPath_app:
  "\<exists>new. checkPath doc t images p ds = ds @ new \<and> list_all imageCode new"
proof (cases "list_ex (\<lambda>img. str_includes (i_src img) p) images")
  case True
  then show ?thesis by (simp add: checkPath_def)
next
  case False
  show ?thesis
  proof (cases "indexOf t p")
    case None
    with False show ?thesis by (simp add: checkPath_def)
  next
    case (Some idx)
    have tc: "imageCode (typoDiagnostic doc p idx tm)" for tm
      by (simp add: imageCode_def typoDiagnostic_def Let_def)
    have pc: "imageCode (pathDiagnostic doc p idx)"
      by (simp add: imageCode_def pathDiagnostic_def)
    show ?thesis
    proof (cases "firstTypo (contextText t idx p) typoMatches")
      case None
      with False Some pc show ?thesis by (simp add: checkPath_def Let_def)
    next
      case (Some tm)
      with False \<open>indexOf t p = Some idx\<close> tc pc show ?thesis
        by (simp add: checkPath_def Let_def)
    qed
  qed
qed

lemma fold_checkPath_app:
  "\<exists>new. fold (checkPath doc t images) ps ds = ds @ new \<and> list_all imageCode new"
proof (induction ps arbitrary: ds)
  case Nil
  then show ?case by simp
next
  case (Cons p ps)
  obtain n1 where n1: "checkPath doc t images p ds = ds @ n1" "list_all imageCode n1"
    using checkPath_app by blast
  obtain n2 where n2: "fold (checkPath doc t images) ps (ds @ n1) = (ds @ n1) @ n2"
    "list_all imageCode n2"
    using Cons.IH by blast
  from n1 n2 show ?case by (intro exI[of _ "n1 @ n2"]) simp
qed

lemma findImageTagTypos_fold:
  "findImageTagTypos doc t images ds = fold (checkPath doc t images) (filesMatches t) ds"
  by (simp add: findImageTagTypos_def)

lemma findImageTagTypos_app:
  "\<exists>new. findImageTagTypos doc t images ds = ds @ new \<and> list_all imageCode new"
  unfolding findImageTagTypos_fold by (rule fold_checkPath_app)

lemma validateFolderNames_eq:
  "validateFolderNames doc images expected ds =
     ds @ map (folderDiagnostic doc expected)
            (filter (\<lambda>img. i_src img \<noteq> [] \<and> \<not> str_includes (i_src img) expected) images)"
  unfolding validateFolderNames_def by (rule fold_push)

lemma folderDiagnostic_code: "imageCode (folderDiagnostic doc expected img)"
  by (simp add: imageCode_def folderDiagnostic_def Let_def)

lemma validateFolderNames_app:
  "\<exists>new. validateFolderNames doc images expected ds = ds @ new \<and> list_all imageCode new"
  unfolding validateFolderNames_eq
  by (intro exI conjI refl) (auto simp: list_all_iff folderDiagnostic_code)

lemma dupEntry_code: "list_all imageCode (dupEntry doc imap e)"
  by (simp add: dupEntry_def imageCode_def duplicateDiagnostic_def split: option.splits)

lemma gapAt_code: "list_all imageCode (gapAt doc s imap i)"
  using gapAt_cases[of doc s imap i] by (auto simp: imageCode_def gapDiagnostic_def)

lemma checkStart_code:
  "\<exists>ws. checkStart doc s imap ds = ds @ ws \<and> list_all imageCode ws"
  by (auto simp: checkStart_def startDiagnostic_def imageCode_def split: list.splits option.splits)

lemma validateImageNumbering_app:
  "\<exists>new. validateImageNumbering doc images ds = ds @ new \<and> list_all imageCode new"
proof -
  let ?nums = "List.map_filter imageNumber images"
  let ?ds1 = "checkDuplicates doc ?nums (lastImage images) ds"
  obtain ws where ws: "checkStart doc (sortNumbers ?nums) (lastImage images) ?ds1 = ?ds1 @ ws"
    "list_all imageCode ws"
    using checkStart_code by blast
  have c: "list_all imageCode (concat (map f xs))" if "\<And>x. list_all imageCode (f x)" for f :: "'a \<Rightarrow> diagnostic list" and xs
    using that by (induction xs) auto
  show ?thesis
    using ws c[of "dupEntry doc (lastImage images)"] c[of "gapAt doc (sortNumbers ?nums) (lastImage images)"]
      dupEntry_code gapAt_code
    by (simp add: validateImageNumbering_def collectNumbers_eq checkSequence_eq checkDuplicates_eq
          Let_def)
qed

lemma imageRule_validate_app:
  "\<exists>new. imageRule_validate doc ds = ds @ new \<and> list_all imageCode new"
proof -
  let ?images = "findAllImages (doc_text doc)"
  obtain n1 where n1: "findImageTagTypos doc (doc_text doc) ?images ds = ds @ n1" "list_all imageCode n1"
    using findImageTagTypos_app by blast
  obtain n2 where n2: "validateFolderNames doc ?images (parse_name (doc_fileName doc) @ ''_files'') (ds @ n1)
        = (ds @ n1) @ n2" "list_all imageCode n2"
    using validateFolderNames_app by blast
  obtain n3 where n3: "validateImageNumbering doc ?images ((ds @ n1) @ n2) = ((ds @ n1) @ n2) @ n3"
    "list_all imageCode n3"
    using validateImageNumbering_app by blast
  show ?thesis
  proof (cases "?images = []")
    case True
    with n1 show ?thesis by (simp add: imageRule_validate_def Let_def)
  next
    case False
    with n1 n2 n3 show ?thesis
      by (intro exI[of _ "n1 @ n2 @ n3"]) (simp add: imageRule_validate_def Let_def)
  qed
qed

section \<open>Replacement of the first occurrence\<close>

lemma getSubstitution_plain:
  "CHR ''$'' \<notin> set rep \<Longrightarrow> getSubstitution matched pre post rep = rep"
  by (induction matched pre post rep rule: getSubstitution.induct) auto

lemma replace_first:
  "indexOf s pat = Some k \<Longrightarrow> CHR ''$'' \<notin> set rep \<Longrightarrow>
     replace s pat rep = take k s @ rep @ drop (k + length pat) s"
  by (simp add: replace_def getSubstitution_plain)

section \<open>The scans return their matches in the order of the text\<close>

lemma atom_first:
  "m ic (R (Atom c) # k) s cs = Some (s', cs') \<Longrightarrow> length s' < length s"
proof (cases s)
  case Nil
  assume "m ic (R (Atom c) # k) s cs = Some (s', cs')"
  with Nil show ?thesis by simp
next
  case (Cons x xs)
  assume "m ic (R (Atom c) # k) s cs = Some (s', cs')"
  with Cons have "m ic k xs cs = Some (s', cs')" by (simp split: if_splits)
  from m_length[OF this] Cons show ?thesis by simp
qed

lemma imgSrcRegex_consumes:
  "match_here True imgSrcRegex s = Some (s', cs) \<Longrightarrow> length s' < length s"
  unfolding match_here_def imgSrcRegex_def
  by (simp only: seqs.simps str.simps m.simps(3)) (erule atom_first)

lemma imgScRegex_consumes:
  "match_here True imgScRegex s = Some (s', cs) \<Longrightarrow> length s' < length s"
  unfolding match_here_def imgScRegex_def
  by (simp only: seqs.simps str.simps m.simps(3)) (erule atom_first)

lemma exec_nonempty:
  assumes c: "\<And>s s' cs. match_here ic r s = Some (s', cs) \<Longrightarrow> length s' < length s"
    and e: "exec ic r t i = Some mt"
  shows "m_text mt \<noteq> []"
proof -
  from exec_Some[OF e] obtain j s' cs where j: "j \<le> length t"
    "match_here ic r (drop j t) = Some (s', cs)"
    "m_text mt = take (length (drop j t) - length s') (drop j t)" by blast
  from c[OF j(2)] have "0 < length (drop j t) - length s'" by simp
  moreover from c[OF j(2)] have "drop j t \<noteq> []" by auto
  ultimately show ?thesis using j(3) by simp
qed

lemma exec_all_elems:
  "mt \<in> set (exec_all ic r t i) \<Longrightarrow> \<exists>j. exec ic r t j = Some mt"
proof (induction ic r t i rule: exec_all.induct)
  case (1 ic r t i)
  show ?case
  proof (cases "exec ic r t i")
    case None
    with "1.prems" show ?thesis by (simp add: exec_all.simps[of ic r t i])
  next
    case (Some mt')
    show ?thesis
    proof (cases "m_index mt' + length (m_text mt') \<le> i")
      case True
      with Some "1.prems" show ?thesis by (simp add: exec_all.simps[of ic r t i])
    next
      case False
      with Some "1.prems" have "mt = mt' \<or> mt \<in> set (exec_all ic r t (m_index mt' + length (m_text mt')))"
        by (simp add: exec_all.simps[of ic r t i])
      then show ?thesis
      proof
        assume "mt = mt'"
        with Some show ?thesis by blast
      next
        assume "mt \<in> set (exec_all ic r t (m_index mt' + length (m_text mt')))"
        from "1.IH"[OF Some False this] show ?thesis .
      qed
    qed
  qed
qed

lemma exec_all_strict:
  assumes c: "\<And>s s' cs. match_here ic r s = Some (s', cs) \<Longrightarrow> length s' < length s"
  shows "sorted_wrt (\<lambda>a b. m_index a + length (m_text a) \<le> m_index b \<and> m_index a < m_index b)
           (exec_all ic r t i)"
proof (rule sorted_wrt_mono_rel[OF _ conjunct1[OF exec_all_bounds[of ic r t i]]])
  fix a b
  assume a: "a \<in> set (exec_all ic r t i)" and "b \<in> set (exec_all ic r t i)"
    and le: "m_index a + length (m_text a) \<le> m_index b"
  from exec_all_elems[OF a] obtain j where "exec ic r t j = Some a" by blast
  from exec_nonempty[OF c this] have "m_text a \<noteq> []" .
  with le show "m_index a + length (m_text a) \<le> m_index b \<and> m_index a < m_index b"
    by (cases "m_text a") simp_all
qed

lemma findAllImages_eq:
  "findAllImages t = map srcImage (exec_all True imgSrcRegex t 0)
                     @ map scImage (exec_all True imgScRegex t 0)"
  by (simp add: findAllImages_def srcImage_def scImage_def)

section \<open>Distinct paths and their first occurrence\<close>

lemma fold_paths:
  fixes ms :: "rmatch list"
  shows "distinct acc \<Longrightarrow>
     distinct (fold (\<lambda>mt paths. if m_text mt \<in> set paths then paths else paths @ [m_text mt]) ms acc)
     \<and> set (fold (\<lambda>mt paths. if m_text mt \<in> set paths then paths else paths @ [m_text mt]) ms acc)
         = set acc \<union> m_text ` set ms"
  by (induction ms arbitrary: acc) auto

lemma filesMatches_distinct: "distinct (filesMatches t)"
  unfolding filesMatches_def using fold_paths[of "[]" "filesRefs t"] by simp

lemma filesMatches_set: "set (filesMatches t) = m_text ` set (filesRefs t)"
  unfolding filesMatches_def using fold_paths[of "[]" "filesRefs t"] by simp

lemma indexOf_from_complete:
  "take (length p) (drop j s) = p \<Longrightarrow> j \<le> length s \<Longrightarrow> \<exists>i. indexOf_from s p n = Some i"
proof (induction s arbitrary: j n)
  case Nil
  then show ?case by simp
next
  case (Cons x xs)
  show ?case
  proof (cases "take (length p) (x # xs) = p")
    case True
    then show ?thesis by simp
  next
    case False
    with Cons.prems obtain j' where j': "j = Suc j'" by (cases j) auto
    with Cons.prems have "take (length p) (drop j' xs) = p" "j' \<le> length xs" by simp_all
    from Cons.IH[OF this] False show ?thesis by simp
  qed
qed

lemma indexOf_from_first:
  "indexOf_from s p n = Some i \<Longrightarrow>
     n \<le> i \<and> i - n \<le> length s \<and> take (length p) (drop (i - n) s) = p
     \<and> (\<forall>j<i - n. take (length p) (drop j s) \<noteq> p)"
proof (induction s arbitrary: n)
  case Nil
  then show ?case by (simp split: if_splits)
next
  case (Cons x xs)
  show ?case
  proof (cases "take (length p) (x # xs) = p")
    case True
    with Cons.prems show ?thesis by simp
  next
    case False
    with Cons.prems have r: "indexOf_from xs p (Suc n) = Some i" by simp
    from Cons.IH[OF r] have ih: "Suc n \<le> i" "i - Suc n \<le> length xs"
      "take (length p) (drop (i - Suc n) xs) = p"
      "\<forall>j<i - Suc n. take (length p) (drop j xs) \<noteq> p" by simp_all
    from ih(1) have e: "i - n = Suc (i - Suc n)" by simp
    have "\<forall>j<i - n. take (length p) (drop j (x # xs)) \<noteq> p"
    proof (intro allI impI)
      fix j assume "j < i - n"
      then show "take (length p) (drop j (x # xs)) \<noteq> p"
        using False ih(4) e by (cases j) auto
    qed
    with ih e show ?thesis by simp
  qed
qed

lemma indexOf_first:
  "indexOf s p = Some i \<Longrightarrow>
     i \<le> length s \<and> take (length p) (drop i s) = p \<and> (\<forall>j<i. take (length p) (drop j s) \<noteq> p)"
  unfolding indexOf_def using indexOf_from_first[of s p 0 i] by simp

lemma filesMatches_indexOf:
  assumes "p \<in> set (filesMatches t)"
  shows "\<exists>i. indexOf t p = Some i"
proof -
  from assms obtain mt where mt: "mt \<in> set (exec_all True filesRegex t 0)" "p = m_text mt"
    by (auto simp: filesMatches_set filesRefs_def)
  from exec_all_text[OF mt(1)] mt(2) obtain j k where jk: "j \<le> length t" "p = take k (drop j t)"
    by blast
  then have "take (length p) (drop j t) = p" by (simp add: min_def)
  from indexOf_from_complete[OF this jk(1)] show ?thesis by (simp add: indexOf_def)
qed


lemma firstTypo_None:
  "firstTypo ctx rs = None \<longleftrightarrow> (\<forall>r\<in>set rs. exec True r ctx 0 = None)"
  by (induction rs) (auto split: option.splits)







lemma contextText_window:
  "contextText t idx p = substring t (idx - 50) (min (length t) (idx + length p + 50))"
proof -
  have "nat (max 0 (int idx - 50)) = idx - 50" by auto
  then show ?thesis by (simp add: contextText_def startSearchIndex_def endSearchIndex_def)
qed

section \<open>The scanning loops make progress\<close>

text \<open>
  Every pattern that the source runs in a \<open>while\<close> loop begins with a character that it
  must read, so no match is empty and the loop of the source is the recursion without the
  guard.
\<close>


lemma markRegex_consumes:
  "match_here True markRegex s = Some (s', cs) \<Longrightarrow> length s' < length s"
  unfolding match_here_def markRegex_def
  by (simp only: seqs.simps str.simps m.simps(3)) (erule atom_first)

lemma filesRegex_consumes:
  "match_here True filesRegex s = Some (s', cs) \<Longrightarrow> length s' < length s"
  unfolding match_here_def filesRegex_def Plus_def
  by (simp only: seqs.simps m.simps(3) m.simps(7)) (erule atom_first)

lemma exec_all_unguarded:
  assumes c: "\<And>s s' cs. match_here ic r s = Some (s', cs) \<Longrightarrow> length s' < length s"
  shows "exec_all ic r t i =
     (case exec ic r t i of
        None \<Rightarrow> []
      | Some mt \<Rightarrow> mt # exec_all ic r t (m_index mt + length (m_text mt)))"
proof (cases "exec ic r t i")
  case None
  then show ?thesis by (simp add: exec_all.simps[of ic r t i])
next
  case (Some mt)
  have "m_text mt \<noteq> []" by (rule exec_nonempty[OF _ Some]) (rule c)
  with exec_index[OF Some] have "\<not> m_index mt + length (m_text mt) \<le> i"
    by (cases "m_text mt") simp_all
  with Some show ?thesis by (simp add: exec_all.simps[of ic r t i])
qed

lemma markRegex_scan:
  "exec_all True markRegex t i =
     (case exec True markRegex t i of
        None \<Rightarrow> []
      | Some mt \<Rightarrow> mt # exec_all True markRegex t (m_index mt + length (m_text mt)))"
  by (rule exec_all_unguarded[OF markRegex_consumes])

lemma imgSrcRegex_scan:
  "exec_all True imgSrcRegex t i =
     (case exec True imgSrcRegex t i of
        None \<Rightarrow> []
      | Some mt \<Rightarrow> mt # exec_all True imgSrcRegex t (m_index mt + length (m_text mt)))"
  by (rule exec_all_unguarded[OF imgSrcRegex_consumes])

lemma imgScRegex_scan:
  "exec_all True imgScRegex t i =
     (case exec True imgScRegex t i of
        None \<Rightarrow> []
      | Some mt \<Rightarrow> mt # exec_all True imgScRegex t (m_index mt + length (m_text mt)))"
  by (rule exec_all_unguarded[OF imgScRegex_consumes])

lemma filesRegex_scan:
  "exec_all True filesRegex t i =
     (case exec True filesRegex t i of
        None \<Rightarrow> []
      | Some mt \<Rightarrow> mt # exec_all True filesRegex t (m_index mt + length (m_text mt)))"
  by (rule exec_all_unguarded[OF filesRegex_consumes])


section \<open>The corrected annotation is read back\<close>

text \<open>
  The text built by \<open>createCorrectedText\<close> is matched by the pattern of
  \<open>findTotalQuestionMarks\<close> as a whole, for every number below \<open>2^53\<close>: the extraction
  returns exactly one annotation, with that number and the unit \<open>getCorrectTerm\<close> chose. The
  lemmas below follow the pattern from its end to its beginning.
\<close>

lemma str_match:
  "map to_upper l = map to_upper l' \<Longrightarrow> m True (R (str l) # k) (l' @ s) cs = m True k s cs"
proof (induction l arbitrary: l')
  case Nil
  then show ?case by simp
next
  case (Cons c l)
  then obtain c' l'' where l': "l' = c' # l''" by (cases l') auto
  with Cons.prems have "to_upper c = to_upper c'" "map to_upper l = map to_upper l''" by simp_all
  with Cons.IH[of l''] l' show ?case by simp
qed

lemma str_match_same: "m True (R (str l) # k) (l @ s) cs = m True k s cs"
  by (rule str_match) simp

lemma star_skip:
  "\<not> in_class ic c x \<Longrightarrow> m ic (R (Star c) # k) (x # xs) cs = m ic k (x # xs) cs"
  by simp

lemma star_one:
  "in_class ic c y \<Longrightarrow> \<not> in_class ic c x \<Longrightarrow> m ic k (x # xs) cs = Some res \<Longrightarrow>
     m ic (R (Star c) # k) (y # x # xs) cs = Some res"
  by simp

lemma plus_one:
  "in_class ic c y \<Longrightarrow> \<not> in_class ic c x \<Longrightarrow>
     m ic (R (Plus c) # k) (y # x # xs) cs = m ic k (x # xs) cs"
  by (simp add: Plus_def)

lemma star_all:
  "list_all (in_class ic c) ds \<Longrightarrow> \<not> in_class ic c x \<Longrightarrow> m ic k (x # xs) cs = Some res \<Longrightarrow>
     m ic (R (Star c) # k) (ds @ x # xs) cs = Some res"
  by (induction ds) simp_all

lemma show_nat_Cons: "\<exists>d ds. show_nat n = d # ds \<and> is_digit d \<and> list_all is_digit ds"
  using show_nat_digits[of n] show_nat_nonempty[of n] by (cases "show_nat n") auto

lemma not_space_digit: "is_digit d \<Longrightarrow> \<not> is_space d"
  by (auto simp: is_digit_def is_space_def)

lemma group_digits:
  assumes k: "m True k (CHR '' '' # r) ((1, show_nat n) # cs) = Some res"
  shows "m True (R (Group 1 (Plus Digit)) # k) (show_nat n @ CHR '' '' # r) cs = Some res"
proof -
  obtain d ds where s: "show_nat n = d # ds" "is_digit d" "list_all is_digit ds"
    using show_nat_Cons by blast
  let ?s0 = "show_nat n @ CHR '' '' # r"
  have cl: "m True (Close 1 ?s0 # k) (CHR '' '' # r) cs = Some res"
    using k by simp
  have dg: "list_all (in_class True Digit) ds"
    using s(3) by (simp add: list_all_iff)
  have "m True (R (Star Digit) # Close 1 ?s0 # k) (ds @ CHR '' '' # r) cs = Some res"
    using dg _ cl by (rule star_all) (simp add: not_digit_space)
  then show ?thesis
    using s by (simp add: Plus_def)
qed

lemma seqs_step: "m ic (R (seqs (p # ps)) # k) s cs = m ic (R p # R (seqs ps) # k) s cs"
  by simp

lemma seqs_nil: "m ic (R (seqs []) # k) s cs = m ic k s cs"
  by simp

lemma str_mismatch:
  "to_upper c \<noteq> to_upper x \<Longrightarrow> m True (R (str (c # l)) # k) (x # s) cs = None"
  by simp

lemma close_take: "m ic (Close i (a @ s) # k) s cs = m ic k s ((i, a) # cs)"
  by simp

lemma tail_end: "m True [R (seqs [str e])] e cs = Some ([], cs)"
proof -
  have "m True [R (seqs [str e])] (e @ []) cs = Some ([], cs)"
    by (simp only: seqs_step seqs_nil str_match_same m.simps(1))
  then show ?thesis by simp
qed

lemma tail_term:
  assumes "t = ''mark'' \<or> t = ''marks''"
  shows "m True [R (seqs [Group 2 (Alt (str ''mark'') (str ''marks'')), str '')</b></p>''])]
           (t @ '')</b></p>'') cs = Some ([], (2, t) # cs)"
proof -
  let ?e = "'')</b></p>''"
  let ?k = "[R (seqs [str ?e])]"
  have mark: "m True (R (str ''mark'') # Close 2 (''mark'' @ ?e) # ?k) (''mark'' @ ?e) cs
              = Some ([], (2, ''mark'') # cs)"
    by (simp only: str_match_same close_take tail_end)
  have marks2: "m True (R (str ''marks'') # Close 2 (''marks'' @ ?e) # ?k) (''marks'' @ ?e) cs
              = Some ([], (2, ''marks'') # cs)"
    by (simp only: str_match_same close_take tail_end)
  have marks1: "m True (R (str ''mark'') # Close 2 (''marks'' @ ?e) # ?k) (''marks'' @ ?e) cs = None"
  proof -
    have sp: "''marks'' @ ?e = ''mark'' @ (CHR ''s'' # ?e)" by simp
    have ne: "to_upper CHR '')'' \<noteq> to_upper CHR ''s''" by code_simp
    have "m True (R (str ''mark'') # Close 2 (''marks'' @ ?e) # ?k) (''mark'' @ (CHR ''s'' # ?e)) cs
          = m True ?k (CHR ''s'' # ?e) ((2, take (length (''marks'' @ ?e) - length (CHR ''s'' # ?e)) (''marks'' @ ?e)) # cs)"
      by (simp only: str_match_same m.simps(9))
    also have "\<dots> = None"
      by (simp only: seqs_step) (rule str_mismatch[OF ne])
    finally show ?thesis unfolding sp .
  qed
  from assms show ?thesis
  proof
    assume t: "t = ''mark''"
    show ?thesis
      unfolding t by (simp only: seqs_step m.simps(7) m.simps(4) mark option.case)
  next
    assume t: "t = ''marks''"
    show ?thesis
      unfolding t by (simp only: seqs_step m.simps(7) m.simps(4) marks1 marks2 option.case)
  qed
qed

lemma space_in_class: "in_class True Space CHR '' ''"
  by (simp add: is_space_def)

lemma not_space_in_class: "\<not> is_space x \<Longrightarrow> \<not> in_class True Space x"
  by simp

lemma markRegex_corrected:
  assumes t: "t = ''mark'' \<or> t = ''marks''"
  shows "m True [R markRegex]
           (''<p align=\"right\"><b>(Total for question = '' @ show_nat n @ '' '' @ t @ '')</b></p>'') cs
         = Some ([], (2, t) # (1, show_nat n) # cs)"
proof -
  let ?e = "'')</b></p>''"
  let ?a = "''align=\"right\"><b>(Total for question''"
  let ?G1 = "Group 1 (Plus Digit)"
  let ?G2 = "Group 2 (Alt (str ''mark'') (str ''marks''))"
  let ?res = "([] :: string, (2, t) # (1, show_nat n) # cs)"
  obtain d ds where d: "show_nat n = d # ds" "is_digit d"
    using show_nat_Cons by blast
  from t obtain ts where ts: "t = CHR ''m'' # ts" by auto
  have nm: "\<not> in_class True Space CHR ''m''" by (simp add: is_space_def)
  have ne: "\<not> in_class True Space CHR ''=''" by (simp add: is_space_def)
  have na: "\<not> in_class True Space CHR ''a''" by (simp add: is_space_def)
  have nd: "\<not> in_class True Space d" using d(2) by (simp add: not_space_digit)
  let ?s9 = "t @ ?e"
  have h9: "m True [R (seqs [?G2, str ?e])] ?s9 ((1, show_nat n) # cs) = Some ?res"
    by (rule tail_term[OF t])
  let ?s8 = "CHR '' '' # ?s9"
  have eq9: "?s9 = CHR ''m'' # (ts @ ?e)" by (simp add: ts)
  have h8: "m True [R (seqs [Star Space, ?G2, str ?e])] ?s8 ((1, show_nat n) # cs) = Some ?res"
    unfolding seqs_step eq9 by (rule star_one[OF space_in_class nm h9[unfolded eq9]])
  let ?s7 = "show_nat n @ ?s8"
  have h7: "m True [R (seqs [?G1, Star Space, ?G2, str ?e])] ?s7 cs = Some ?res"
    unfolding seqs_step by (rule group_digits[OF h8])
  let ?s6 = "CHR '' '' # ?s7"
  have eq7: "?s7 = d # (ds @ ?s8)" by (simp add: d(1))
  have h6: "m True [R (seqs [Star Space, ?G1, Star Space, ?G2, str ?e])] ?s6 cs = Some ?res"
    unfolding seqs_step eq7 by (rule star_one[OF space_in_class nd h7[unfolded eq7]])
  let ?s5 = "''='' @ ?s6"
  have h5: "m True [R (seqs [str ''='', Star Space, ?G1, Star Space, ?G2, str ?e])] ?s5 cs = Some ?res"
    unfolding seqs_step str_match_same by (rule h6[unfolded seqs_step])
  let ?s4 = "CHR '' '' # ?s5"
  have eq5: "?s5 = CHR ''='' # ?s6" by simp
  have h4: "m True [R (seqs [Star Space, str ''='', Star Space, ?G1, Star Space, ?G2, str ?e])] ?s4 cs
            = Some ?res"
    unfolding seqs_step eq5 by (rule star_one[OF space_in_class ne h5[unfolded eq5]])
  let ?s3 = "?a @ ?s4"
  have h3: "m True [R (seqs [str ?a, Star Space, str ''='', Star Space, ?G1, Star Space, ?G2, str ?e])]
              ?s3 cs = Some ?res"
    unfolding seqs_step str_match_same by (rule h4[unfolded seqs_step])
  have eq3: "?s3 = CHR ''a'' # (''lign=\"right\"><b>(Total for question'' @ ?s4)" by simp
  let ?s2 = "CHR '' '' # ?s3"
  have h2: "m True [R (seqs [Plus Space, str ?a, Star Space, str ''='', Star Space, ?G1, Star Space,
                             ?G2, str ?e])] ?s2 cs = Some ?res"
    unfolding seqs_step eq3 plus_one[OF space_in_class na] by (rule h3[unfolded seqs_step eq3])
  let ?s1 = "''<p'' @ ?s2"
  have h1: "m True [R markRegex] ?s1 cs = Some ?res"
    unfolding markRegex_def seqs_step str_match_same by (rule h2[unfolded seqs_step])
  have "''<p align=\"right\"><b>(Total for question = '' @ show_nat n @ '' '' @ t @ '')</b></p>'' = ?s1"
    by simp
  with h1 show ?thesis by simp
qed

lemma getCorrectTerm_cases: "getCorrectTerm x = ''mark'' \<or> getCorrectTerm x = ''marks''"
  by (simp add: getCorrectTerm_def)

lemma getCorrectTerm_lower: "map to_lower (getCorrectTerm x) = getCorrectTerm x"
proof -
  have "map to_lower ''mark'' = ''mark''" by code_simp
  moreover have "map to_lower ''marks'' = ''marks''" by code_simp
  ultimately show ?thesis by (simp add: getCorrectTerm_def)
qed

lemma markRegex_empty: "match_here True markRegex [] = None"
  by code_simp

lemma createCorrectedText_safe:
  "n < 9007199254740992 \<Longrightarrow>
     createCorrectedText (Fin n)
       = ''<p align=\"right\"><b>(Total for question = '' @ show_nat n @ '' ''
           @ getCorrectTerm (Fin n) @ '')</b></p>''"
  by (simp add: createCorrectedText_def numToString_safe)

lemma match_here_corrected:
  "n < 9007199254740992 \<Longrightarrow>
     match_here True markRegex (createCorrectedText (Fin n))
       = Some ([], [(2, getCorrectTerm (Fin n)), (1, show_nat n)])"
  unfolding match_here_def createCorrectedText_safe
  by (rule markRegex_corrected[OF getCorrectTerm_cases])

lemma exec_corrected:
  assumes "n < 9007199254740992"
  shows "exec True markRegex (createCorrectedText (Fin n)) 0
     = Some \<lparr>m_index = 0, m_text = createCorrectedText (Fin n),
              m_caps = [(2, getCorrectTerm (Fin n)), (1, show_nat n)]\<rparr>"
proof -
  obtain x xs where c: "createCorrectedText (Fin n) = x # xs"
    by (simp add: createCorrectedText_def)
  have "search True markRegex (x # xs) 0
          = Some \<lparr>m_index = 0, m_text = x # xs,
                   m_caps = [(2, getCorrectTerm (Fin n)), (1, show_nat n)]\<rparr>"
    using match_here_corrected[OF assms] unfolding c by simp
  then show ?thesis unfolding c by (simp add: exec_def)
qed

lemma exec_end: "exec True markRegex t (length t) = None"
  by (simp add: exec_def markRegex_empty)

lemma exec_all_corrected:
  assumes "n < 9007199254740992"
  shows "exec_all True markRegex (createCorrectedText (Fin n)) 0
     = [\<lparr>m_index = 0, m_text = createCorrectedText (Fin n),
         m_caps = [(2, getCorrectTerm (Fin n)), (1, show_nat n)]\<rparr>]"
proof -
  have e: "exec_all True markRegex (createCorrectedText (Fin n))
             (length (createCorrectedText (Fin n))) = []"
    by (subst exec_all_unguarded[OF markRegex_consumes]) (simp_all add: exec_end)
  show ?thesis
    by (subst exec_all_unguarded[OF markRegex_consumes])
       (simp_all add: exec_corrected[OF assms] e)
qed

lemma findTotalQuestionMarks_corrected:
  assumes "n < 9007199254740992"
  shows "findTotalQuestionMarks (createCorrectedText (Fin n))
     = [\<lparr>q_fullMatch = createCorrectedText (Fin n), q_points = Fin n,
         q_term = getCorrectTerm (Fin n), q_index = 0\<rparr>]"
  unfolding findTotalQuestionMarks_def exec_all_corrected[OF assms]
  using assms by (simp add: group_def parseInt10_show_nat getCorrectTerm_lower)

lemma isCorrectMarkUsage_getCorrectTerm:
  "isCorrectMarkUsage (Fin n) (getCorrectTerm (Fin n)) \<longleftrightarrow> n \<noteq> 0"
  by (auto simp: isCorrectMarkUsage_def getCorrectTerm_def)

lemma corrected_text_passes_iff:
  assumes "n < 9007199254740992"
  shows "list_all (\<lambda>q. isCorrectMarkUsage (q_points q) (q_term q))
     (findTotalQuestionMarks (createCorrectedText (Fin n))) \<longleftrightarrow> n \<noteq> 0"
  unfolding findTotalQuestionMarks_corrected[OF assms]
  by (simp add: isCorrectMarkUsage_getCorrectTerm)


section \<open>Numbers beyond the exact range\<close>

text \<open>
  The digits captured by the pattern of the image number are never empty, so the number of an
  image is not \<open>NaN\<close>. The remaining lemmas evaluate the numbering check on two tags that
  carry one number, and the functions of the number model at \<open>10^21\<close> and around \<open>2^53\<close>.
\<close>

lemma star_close_caps:
  assumes k: "\<And>s cs r. m ic k s cs = Some r \<Longrightarrow> snd r = cs"
  shows "m ic (R (Star c) # Close i s0 # k) s2 cs = Some (s', cs') \<Longrightarrow>
         \<exists>s3 :: string. length s3 \<le> length s2 \<and> cs' = (i, take (length s0 - length s3) s0) # cs"
proof (induction s2)
  case Nil
  then have "m ic k [] ((i, take (length s0) s0) # cs) = Some (s', cs')" by simp
  from k[OF this] have "cs' = (i, take (length s0 - length ([]::string)) s0) # cs" by simp
  then show ?case by (auto intro!: exI[of _ "[]"])
next
  case (Cons x xs)
  have cl: "m ic (Close i s0 # k) (x # xs) cs = Some (s', cs') \<Longrightarrow> ?case"
  proof -
    assume "m ic (Close i s0 # k) (x # xs) cs = Some (s', cs')"
    then have "m ic k (x # xs) ((i, take (length s0 - length (x # xs)) s0) # cs) = Some (s', cs')"
      by simp
    from k[OF this] have "cs' = (i, take (length s0 - length (x # xs)) s0) # cs" by simp
    then show ?case by (auto intro!: exI[of _ "x # xs"])
  qed
  show ?case
  proof (cases "in_class ic c x")
    case False
    with Cons.prems have "m ic (Close i s0 # k) (x # xs) cs = Some (s', cs')" by simp
    then show ?thesis by (rule cl)
  next
    case True
    show ?thesis
    proof (cases "m ic (R (Star c) # Close i s0 # k) xs cs")
      case None
      with True Cons.prems have "m ic (Close i s0 # k) (x # xs) cs = Some (s', cs')" by simp
      then show ?thesis by (rule cl)
    next
      case (Some r)
      with True Cons.prems have "m ic (R (Star c) # Close i s0 # k) xs cs = Some (s', cs')" by simp
      from Cons.IH[OF this] obtain s3 :: string where "length s3 \<le> length xs"
        "cs' = (i, take (length s0 - length s3) s0) # cs" by blast
      then show ?thesis by (auto intro!: exI[of _ s3])
    qed
  qed
qed

lemma numRegex_group:
  assumes "match_here False numRegex s = Some (s', cs)"
  shows "\<exists>d r. cs = [(1, d # r)] \<and> is_digit d"
proof -
  let ?k = "[R (seqs [str ''.''])]"
  have k: "snd r = cs" if "m False ?k s cs = Some r" for s cs r
    using that by (cases s) (auto split: if_splits)
  from assms obtain x s1 where s1: "s = x # s1"
    by (cases s) (auto simp: match_here_def numRegex_def)
  with assms obtain d s2 where d: "s1 = d # s2"
    by (cases s1) (auto simp: match_here_def numRegex_def Plus_def split: if_splits)
  from assms have dd: "is_digit d"
    and st: "m False (R (Star Digit) # Close 1 (d # s2) # ?k) s2 [] = Some (s', cs)"
    unfolding s1 d by (auto simp: match_here_def numRegex_def Plus_def split: if_splits)
  have "\<exists>s3 :: string. length s3 \<le> length s2
          \<and> cs = (1, take (length (d # s2) - length s3) (d # s2)) # []"
    by (rule star_close_caps[OF _ st]) (erule k)
  then obtain s3 :: string where s3: "length s3 \<le> length s2"
    "cs = [(1, take (length (d # s2) - length s3) (d # s2))]" by blast
  from s3(1) have "take (length (d # s2) - length s3) (d # s2) = d # take (length s2 - length s3) s2"
    by (simp add: Suc_diff_le)
  with s3(2) dd show ?thesis by simp
qed

lemma toDouble_not_NaN: "toDouble n \<noteq> NaN"
  by (simp add: toDouble_def)

lemma imageNumber_not_NaN: "imageNumber img \<noteq> Some NaN"
proof
  assume a: "imageNumber img = Some NaN"
  then obtain mt where mt: "exec False numRegex (i_src img) 0 = Some mt"
    and p: "parseInt10 (group mt 1) = NaN"
    by (auto simp: imageNumber_def split: option.splits)
  from exec_Some[OF mt] obtain j s' where "match_here False numRegex (drop j (i_src img)) = Some (s', m_caps mt)"
    by blast
  from numRegex_group[OF this] obtain d r where "m_caps mt = [(1, d # r)]" "is_digit d" by blast
  then have "parseInt10 (group mt 1) \<noteq> NaN"
    by (simp add: group_def parseInt10_def toDouble_not_NaN)
  from this p show False by (rule notE)
qed

lemma collected_no_NaN: "NaN \<notin> set (List.map_filter imageNumber images)"
  using imageNumber_not_NaN by (auto simp: List.map_filter_def)

lemma objectEntries_single: "objectEntries [e] = [e]"
  by (cases e) (simp add: objectEntries_def)

lemma two_equal_ids:
  assumes "imageNumber i1 = Some v" and "imageNumber i2 = Some v"
  shows "validateImageNumbering doc [i1, i2] [] =
     (case [v \<mapsto> i2] (parseInt10 (numToString v)) of
        Some img \<Rightarrow> [duplicateDiagnostic doc img (numToString v) 2]
      | None \<Rightarrow> [])
     @ (if v \<noteq> Fin 1 then [startDiagnostic doc i2 v] else [])
     @ (if notIdentical v (plusOne v) then [gapDiagnostic doc i2 v v] else [])"
proof -
  have c: "collectNumbers [i1, i2] = ([v, v], [v \<mapsto> i2])"
    using assms by (simp add: collectNumbers_def)
  have s: "sortNumbers [v, v] = [v, v]"
    by (cases v) (simp_all add: sortNumbers_def)
  have k: "countNumbers [v, v] = [(numToString v, 2)]"
    by (simp add: countNumbers_def)
  have u: "[0..<2] = [0, 1]" by (simp add: upt_rec)
  show ?thesis
    unfolding validateImageNumbering_def c
    by (simp add: s checkDuplicates_def k objectEntries_single checkStart_def checkSequence_def u
          split: option.splits)
qed

lemma round53_1e21: "round53 1000000000000000000000 = 1000000000000000000000"
  by (simp add: round53_def expo.simps Let_def)

lemma round53_1e21_1: "round53 1000000000000000000001 = 1000000000000000000000"
  by (simp add: round53_def expo.simps Let_def)

lemma round53_2e21: "round53 2000000000000000000000 = 2000000000000000000000"
  by (simp add: round53_def expo.simps Let_def)

lemma round53_1e22: "round53 10000000000000000000000 = 10000000000000000000000"
  by (simp add: round53_def expo.simps Let_def)

lemma show_nat_1e21: "show_nat 1000000000000000000000 = ''1000000000000000000000''"
  by (simp add: show_nat.simps digit_char_def)

lemma shortestFrom_1e21: "shortestFrom 1000000000000000000000 22 1 = 1000000000000000000000"
  by (subst shortestFrom.simps) (simp add: Let_def round53_1e21 round53_2e21)

lemma exponentForm_1e21: "exponentForm ''1000000000000000000000'' = ''1e+21''"
  by (simp add: exponentForm_def show_nat.simps digit_char_def)

lemma numToString_1e21: "numToString (Fin 1000000000000000000000) = ''1e+21''"
proof -
  have cnd: "(int 1000000000000000000000 \<le> 9007199254740992) = False" by simp
  have r22p: "(round53 (10 ^ 22) = 1000000000000000000000) = False" using round53_1e22 by simp
  have l22: "length ''1000000000000000000000'' = 22" by simp
  have n21: "((22::nat) \<le> 21) = False" by simp
  show ?thesis
    by (simp only: numToString_def number.case Let_def cnd r22p shortestFrom_1e21 show_nat_1e21
          l22 n21 exponentForm_1e21 if_False)
qed

lemma parseInt10_1e21: "parseInt10 ''1000000000000000000000'' = Fin 1000000000000000000000"
proof -
  have tw: "takeWhile is_digit ''1000000000000000000000'' = ''1000000000000000000000''"
    by (simp add: is_digit_def)
  have d: "decimal ''1000000000000000000000'' = 1000000000000000000000"
    by (simp add: decimal_def digit_val_def)
  have lt: "(1000000000000000000000::nat) < 2 ^ 1024" by simp
  show ?thesis
    unfolding parseInt10_def tw Let_def d toDouble_def round53_1e21 using lt by simp
qed

lemma toDouble_1e21_1: "toDouble 1000000000000000000001 = Fin 1000000000000000000000"
proof -
  have lt: "(1000000000000000000000::nat) < 2 ^ 1024" by simp
  show ?thesis unfolding toDouble_def round53_1e21_1 using lt by simp
qed

lemma plusOne_1e21: "plusOne (Fin 1000000000000000000000) = Fin 1000000000000000000000"
  by (simp add: toDouble_1e21_1)

lemma imageNumber_big:
  "imageNumber imgBig1 = Some (Fin 1000000000000000000000)"
  "imageNumber imgBig2 = Some (Fin 1000000000000000000000)"
proof -
  have e: "exec False numRegex ''d_files/1000000000000000000000.png'' 0
           = Some \<lparr>m_index = 7, m_text = ''/1000000000000000000000.'',
                    m_caps = [(1, ''1000000000000000000000'')]\<rparr>"
    by code_simp
  show "imageNumber imgBig1 = Some (Fin 1000000000000000000000)"
    by (simp add: imageNumber_def imgBig1_def e group_def parseInt10_1e21)
  show "imageNumber imgBig2 = Some (Fin 1000000000000000000000)"
    by (simp add: imageNumber_def imgBig2_def e group_def parseInt10_1e21)
qed

lemma show_nat_2p53: "show_nat 9007199254740992 = ''9007199254740992''"
  by (simp add: show_nat.simps digit_char_def)

lemma numToString_2p53: "numToString (Fin 9007199254740992) = ''9007199254740992''"
  by (simp add: numToString_safe show_nat_2p53)

lemma parseInt10_2p53: "parseInt10 ''9007199254740992'' = Fin 9007199254740992"
proof -
  have tw: "takeWhile is_digit ''9007199254740992'' = ''9007199254740992''"
    by (simp add: is_digit_def)
  have d: "decimal ''9007199254740992'' = 9007199254740992"
    by (simp add: decimal_def digit_val_def)
  show ?thesis
    unfolding parseInt10_def tw Let_def d by (simp add: toDouble_bound)
qed

lemma round53_2p53_1: "round53 9007199254740993 = 9007199254740992"
  by (simp add: round53_def expo.simps Let_def)

lemma toDouble_2p53_1: "toDouble 9007199254740993 = Fin 9007199254740992"
proof -
  have lt: "(9007199254740992::nat) < 2 ^ 1024" by simp
  show ?thesis unfolding toDouble_def round53_2p53_1 using lt by simp
qed

lemma parseInt10_2p53_1: "parseInt10 ''9007199254740993'' = Fin 9007199254740992"
proof -
  have tw: "takeWhile is_digit ''9007199254740993'' = ''9007199254740993''"
    by (simp add: is_digit_def)
  have d: "decimal ''9007199254740993'' = 9007199254740993"
    by (simp add: decimal_def digit_val_def)
  show ?thesis
    unfolding parseInt10_def tw Let_def d by (simp add: toDouble_2p53_1)
qed

lemma imageNumber_exact:
  "imageNumber imgExact1 = Some (Fin 9007199254740992)"
  "imageNumber imgExact2 = Some (Fin 9007199254740992)"
proof -
  have e: "exec False numRegex ''g_files/9007199254740992.png'' 0
           = Some \<lparr>m_index = 7, m_text = ''/9007199254740992.'',
                    m_caps = [(1, ''9007199254740992'')]\<rparr>"
    by code_simp
  show "imageNumber imgExact1 = Some (Fin 9007199254740992)"
    by (simp add: imageNumber_def imgExact1_def e group_def parseInt10_2p53)
  show "imageNumber imgExact2 = Some (Fin 9007199254740992)"
    by (simp add: imageNumber_def imgExact2_def e group_def parseInt10_2p53)
qed

lemma imageNumber_rounded:
  "imageNumber imgRounded1 = Some (Fin 9007199254740992)"
  "imageNumber imgRounded2 = Some (Fin 9007199254740992)"
proof -
  have e: "exec False numRegex ''r_files/9007199254740993.png'' 0
           = Some \<lparr>m_index = 7, m_text = ''/9007199254740993.'',
                    m_caps = [(1, ''9007199254740993'')]\<rparr>"
    by code_simp
  show "imageNumber imgRounded1 = Some (Fin 9007199254740992)"
    by (simp add: imageNumber_def imgRounded1_def e group_def parseInt10_2p53_1)
  show "imageNumber imgRounded2 = Some (Fin 9007199254740992)"
    by (simp add: imageNumber_def imgRounded2_def e group_def parseInt10_2p53_1)
qed

lemma two_ids_2p53:
  assumes "imageNumber i1 = Some (Fin 9007199254740992)"
    and "imageNumber i2 = Some (Fin 9007199254740992)"
  shows "validateImageNumbering doc [i1, i2] []
     = [duplicateDiagnostic doc i2 ''9007199254740992'' 2,
        startDiagnostic doc i2 (Fin 9007199254740992)]"
  unfolding two_equal_ids[OF assms]
  by (simp add: numToString_2p53 parseInt10_2p53 toDouble_2p53_1 notIdentical_def)


section \<open>Image numbering: duplicates and the sequence walk\<close>

text \<open>
  Claim C4, for an id in the exact range. In \<open>validateImageNumbering\<close>, for every numeric id
  below \<open>2^53\<close> that is extracted from the matches' paths and occurs more than once, exactly
  one Error diagnostic with the message ``Duplicate image number: id is used count times'' is
  emitted, and it is located at the last match seen with that id. The ids are
  \<open>List.map_filter imageNumber images\<close>, and \<open>Fin n\<close> is the id with the value \<open>n\<close>; below
  \<open>2^53\<close> it is the number written in the path (lemma \<open>toDouble_exact\<close>). The other ids of
  the document are arbitrary. The theorem selects, among the diagnostics that the call appends,
  the Errors whose message names the id (with any count), and shows that there is exactly one,
  with the id's count and the range of the last image carrying the id.
\<close>

theorem duplicate_error_exactly_once:
  assumes "n < 9007199254740992"
    and "1 < count_list (List.map_filter imageNumber images) (Fin n)"
  shows "filter (\<lambda>d. d_severity d = Error \<and>
                    (\<exists>c. d_message d = ''Duplicate image number: '' @ show_nat n @ '' is used ''
                                          @ show_nat c @ '' times''))
                (drop (length diagnostics) (validateImageNumbering doc images diagnostics))
         = [\<lparr>d_range = getMatchRange doc
                         (i_index (last (filter (\<lambda>img. imageNumber img = Some (Fin n)) images)))
                         (i_fullMatch (last (filter (\<lambda>img. imageNumber img = Some (Fin n)) images))),
             d_message = ''Duplicate image number: '' @ show_nat n @ '' is used ''
                           @ show_nat (count_list (List.map_filter imageNumber images) (Fin n))
                           @ '' times'',
             d_severity = Error,
             d_source = ''Educational Validator'',
             d_code = None\<rparr>]"
proof -
  let ?nums = "List.map_filter imageNumber images"
  let ?P = "\<lambda>d. d_severity d = Error \<and>
                    (\<exists>c. d_message d = ''Duplicate image number: '' @ show_nat n @ '' is used ''
                                          @ show_nat c @ '' times'')"
  let ?D = "duplicateDiagnostic doc (last (filter (\<lambda>img. imageNumber img = Some (Fin n)) images))
              (show_nat n) (count_list ?nums (Fin n))"
  let ?es = "objectEntries (countNumbers ?nums)"
  let ?gaps = "concat (map (gapAt doc (sortNumbers ?nums) (lastImage images)) [0..<length ?nums])"
  note bn = assms(1) and n = assms(2)
  from n have ne: "?nums \<noteq> []" by auto
  from n distinct_count_list_le[of ?nums "Fin n"] have nd: "\<not> distinct ?nums" by auto
  from n have in_nums: "Fin n \<in> set ?nums" by (intro count_list_pos_mem) simp
  have key: "numToString (Fin n) = show_nat n" using bn by (simp add: numToString_safe)
  obtain ws where ws: "\<forall>w\<in>set ws. d_severity w = Warning"
    and v: "validateImageNumbering doc images diagnostics =
          diagnostics @ concat (map (dupEntry doc (lastImage images)) ?es) @ ws @ ?gaps"
    using validateImageNumbering_eq[of doc images diagnostics] ne nd by auto
  have fw: "filter ?P ws = []" using ws by (auto simp: filter_empty_conv)
  have fg: "filter ?P ?gaps = []"
    using gapAt_Warning by (fastforce simp: filter_empty_conv)
  have mem: "(show_nat n, count_list ?nums (Fin n)) \<in> set ?es"
  proof -
    have "map_of (countNumbers ?nums) (numToString (Fin n))
          = (if Fin n \<in> set ?nums then Some (count_list ?nums (Fin n)) else None)"
      by (rule countNumbers_map_of) (simp add: key numToString_show_nat[OF _ bn])
    with in_nums have "map_of (countNumbers ?nums) (show_nat n) = Some (count_list ?nums (Fin n))"
      by (simp add: key)
    then show ?thesis by (simp add: objectEntries_set map_of_SomeD)
  qed
  have "filter ?P (concat (map (dupEntry doc (lastImage images)) ?es))
        = concat (map (\<lambda>e. filter ?P (dupEntry doc (lastImage images) e)) ?es)"
    by (simp add: filter_concat comp_def)
  also have "\<dots> = concat (map (\<lambda>e. if fst e = show_nat n then [?D] else []) ?es)"
  proof -
    have eq: "map (\<lambda>e. filter ?P (dupEntry doc (lastImage images) e)) ?es
          = map (\<lambda>e. if fst e = show_nat n then [?D] else []) ?es"
    proof (rule map_cong[OF refl])
      fix e assume "e \<in> set ?es"
      then have "e \<in> set (countNumbers ?nums)" by (simp add: objectEntries_set)
      from dupEntry_filter[OF this n refl bn, of doc]
      show "filter ?P (dupEntry doc (lastImage images) e) = (if fst e = show_nat n then [?D] else [])" .
    qed
    show ?thesis by (simp only: eq)
  qed
  also have "\<dots> = [?D]"
    using concat_single[OF objectEntries_distinct[OF countNumbers_distinct] mem] .
  finally have fd: "filter ?P (concat (map (dupEntry doc (lastImage images)) ?es)) = [?D]" .
  show ?thesis
    unfolding v using fd fw fg by (simp add: duplicateDiagnostic_def)
qed

text \<open>
  The instance for the ids 1, 2, 2, 3: one Error, for id 2 used 2 times, at the third tag; it
  is the only Error of the call.
\<close>

theorem duplicate_error_ids_1223:
  "List.map_filter imageNumber (findAllImages text1223) = [Fin 1, Fin 2, Fin 2, Fin 3]
   \<and> (2::nat) < 9007199254740992
   \<and> filter (\<lambda>d. d_severity d = Error \<and>
                    (\<exists>c. d_message d = ''Duplicate image number: '' @ show_nat 2 @ '' is used ''
                                          @ show_nat c @ '' times''))
         (drop (length ([] :: diagnostic list))
            (validateImageNumbering (mkDocument text1223 ''/w/d.html'') (findAllImages text1223) []))
       = [\<lparr>d_range = \<lparr>r_start = 52, r_end = 78\<rparr>,
           d_message = ''Duplicate image number: 2 is used 2 times'',
           d_severity = Error,
           d_source = ''Educational Validator'',
           d_code = None\<rparr>]
   \<and> filter (\<lambda>d. d_severity d = Error)
         (validateImageNumbering (mkDocument text1223 ''/w/d.html'') (findAllImages text1223) [])
       = [\<lparr>d_range = \<lparr>r_start = 52, r_end = 78\<rparr>,
           d_message = ''Duplicate image number: 2 is used 2 times'',
           d_severity = Error,
           d_source = ''Educational Validator'',
           d_code = None\<rparr>]"
proof -
  have ids: "List.map_filter imageNumber (findAllImages text1223) = [Fin 1, Fin 2, Fin 2, Fin 3]"
    by code_simp
  have safe: "(2::nat) < 9007199254740992" by simp
  have hyp: "1 < count_list (List.map_filter imageNumber (findAllImages text1223)) (Fin 2)"
    unfolding ids by simp
  have errs: "filter (\<lambda>d. d_severity d = Error)
         (validateImageNumbering (mkDocument text1223 ''/w/d.html'') (findAllImages text1223) [])
       = [\<lparr>d_range = \<lparr>r_start = 52, r_end = 78\<rparr>,
           d_message = ''Duplicate image number: 2 is used 2 times'',
           d_severity = Error,
           d_source = ''Educational Validator'',
           d_code = None\<rparr>]"
    by code_simp
  have img: "last (filter (\<lambda>img. imageNumber img = Some (Fin 2)) (findAllImages text1223))
             = \<lparr>i_fullMatch = ''<img src=\"d_files/02.png\">'', i_src = ''d_files/02.png'',
                 i_index = 52, i_hasScAttribute = False\<rparr>"
    by code_simp
  have rng: "getMatchRange (mkDocument text1223 ''/w/d.html'') 52 ''<img src=\"d_files/02.png\">''
             = \<lparr>r_start = 52, r_end = 78\<rparr>"
    by code_simp
  have msg: "''Duplicate image number: '' @ show_nat 2 @ '' is used ''
               @ show_nat (count_list [Fin 1, Fin 2, Fin 2, Fin 3] (Fin 2)) @ '' times''
             = ''Duplicate image number: 2 is used 2 times''"
    by code_simp
  from duplicate_error_exactly_once[OF safe hyp, where doc = "mkDocument text1223 ''/w/d.html''"
      and diagnostics = "[]"]
  have main: "filter (\<lambda>d. d_severity d = Error \<and>
                    (\<exists>c. d_message d = ''Duplicate image number: '' @ show_nat 2 @ '' is used ''
                                          @ show_nat c @ '' times''))
         (drop (length ([] :: diagnostic list))
            (validateImageNumbering (mkDocument text1223 ''/w/d.html'') (findAllImages text1223) []))
       = [\<lparr>d_range = \<lparr>r_start = 52, r_end = 78\<rparr>,
           d_message = ''Duplicate image number: 2 is used 2 times'',
           d_severity = Error,
           d_source = ''Educational Validator'',
           d_code = None\<rparr>]"
    unfolding ids img image.simps rng msg .
  from ids safe main errs show ?thesis by (intro conjI)
qed

text \<open>
  The claim as stated, for every id, fails beyond the exact range. Two tags with the id
  \<open>10^21\<close>: the key of the count is \<open>1e+21\<close>, which \<open>parseInt\<close> reads back as 1, no image has
  the number 1, and no Error is emitted; the only diagnostic is the Warning about the first
  number. Two tags with the id 9007199254740993, which is \<open>2^53 + 1\<close>: the number read is
  \<open>2^53\<close>, and the Error names 9007199254740992, which is not the id of the paths.
\<close>

theorem duplicate_error_large_id_counterexample:
  "findAllImages textBigDup = [imgBig1, imgBig2]
   \<and> List.map_filter imageNumber (findAllImages textBigDup)
       = [Fin 1000000000000000000000, Fin 1000000000000000000000]
   \<and> numToString (Fin 1000000000000000000000) = ''1e+21''
   \<and> parseInt10 ''1e+21'' = Fin 1
   \<and> map (\<lambda>d. (d_severity d, d_message d))
         (validateImageNumbering (mkDocument textBigDup ''/w/d.html'') (findAllImages textBigDup) [])
       = [(Warning, ''Image numbering should start with 01, found 1e+21'')]
   \<and> findAllImages textRounded = [imgRounded1, imgRounded2]
   \<and> map i_src (findAllImages textRounded)
       = [''r_files/9007199254740993.png'', ''r_files/9007199254740993.png'']
   \<and> List.map_filter imageNumber (findAllImages textRounded)
       = [Fin 9007199254740992, Fin 9007199254740992]
   \<and> map (\<lambda>d. (d_severity d, d_message d))
         (validateImageNumbering (mkDocument textRounded ''/w/r.html'') (findAllImages textRounded) [])
       = [(Error, ''Duplicate image number: 9007199254740992 is used 2 times''),
          (Warning, ''Image numbering should start with 01, found 9007199254740992'')]"
proof -
  let ?doc = "mkDocument textBigDup ''/w/d.html''"
  let ?docr = "mkDocument textRounded ''/w/r.html''"
  have imgs: "findAllImages textBigDup = [imgBig1, imgBig2]" by code_simp
  have ids: "List.map_filter imageNumber [imgBig1, imgBig2]
             = [Fin 1000000000000000000000, Fin 1000000000000000000000]"
    by (simp add: List.map_filter_def imageNumber_big)
  have p: "parseInt10 ''1e+21'' = Fin 1" by code_simp
  have pad: "padStart2 ''1e+21'' = ''1e+21''" by code_simp
  have v: "validateImageNumbering ?doc [imgBig1, imgBig2] []
           = [startDiagnostic ?doc imgBig2 (Fin 1000000000000000000000)]"
    unfolding two_equal_ids[OF imageNumber_big]
    by (simp add: numToString_1e21 p toDouble_1e21_1 notIdentical_def)
  have r: "map (\<lambda>d. (d_severity d, d_message d))
         (validateImageNumbering ?doc [imgBig1, imgBig2] [])
       = [(Warning, ''Image numbering should start with 01, found 1e+21'')]"
    unfolding v by (simp add: startDiagnostic_def numToString_1e21 pad)
  have imgsr: "findAllImages textRounded = [imgRounded1, imgRounded2]" by code_simp
  have srcr: "map i_src [imgRounded1, imgRounded2]
       = [''r_files/9007199254740993.png'', ''r_files/9007199254740993.png'']"
    by (simp add: imgRounded1_def imgRounded2_def)
  have idsr: "List.map_filter imageNumber [imgRounded1, imgRounded2]
             = [Fin 9007199254740992, Fin 9007199254740992]"
    by (simp add: List.map_filter_def imageNumber_rounded)
  have padr: "padStart2 ''9007199254740992'' = ''9007199254740992''" by code_simp
  have two: "show_nat 2 = ''2''" by code_simp
  have rr: "map (\<lambda>d. (d_severity d, d_message d))
         (validateImageNumbering ?docr [imgRounded1, imgRounded2] [])
       = [(Error, ''Duplicate image number: 9007199254740992 is used 2 times''),
          (Warning, ''Image numbering should start with 01, found 9007199254740992'')]"
    unfolding two_ids_2p53[OF imageNumber_rounded]
    by (simp add: duplicateDiagnostic_def startDiagnostic_def numToString_2p53 padr two)
  from imgs ids numToString_1e21 p r imgsr srcr idsr rr show ?thesis
    unfolding imgs imgsr by (intro conjI)
qed

text \<open>
  Claim C9, for an id in the exact range. The sequence walk runs over the sorted id list with
  duplicates retained, so an id below \<open>2^53\<close> that occurs more than once also yields a
  Warning ``Image numbering is not sequential. Expected id+1, found id'' (both numbers padded
  to two digits) at the last match for that id. The other ids of the document are arbitrary.
\<close>

theorem duplicate_triggers_gap_warning:
  assumes "n < 9007199254740992"
    and "1 < count_list (List.map_filter imageNumber images) (Fin n)"
  shows "\<lparr>d_range = getMatchRange doc
                       (i_index (last (filter (\<lambda>img. imageNumber img = Some (Fin n)) images)))
                       (i_fullMatch (last (filter (\<lambda>img. imageNumber img = Some (Fin n)) images))),
           d_message = ''Image numbering is not sequential. Expected '' @ padStart2 (show_nat (n + 1))
                         @ '', found '' @ padStart2 (show_nat n),
           d_severity = Warning,
           d_source = ''Educational Validator'',
           d_code = None\<rparr>
         \<in> set (drop (length diagnostics) (validateImageNumbering doc images diagnostics))"
proof -
  let ?nums = "List.map_filter imageNumber images"
  let ?img = "last (filter (\<lambda>img. imageNumber img = Some (Fin n)) images)"
  note bn = assms(1) and n = assms(2)
  let ?s = "sortNumbers ?nums"
  from n have ne: "?nums \<noteq> []" by auto
  obtain ws ds where v: "validateImageNumbering doc images diagnostics =
          diagnostics @ ds @ ws @ concat (map (gapAt doc ?s (lastImage images)) [0..<length ?nums])"
    using validateImageNumbering_eq[of doc images diagnostics] ne by auto
  have nn: "NaN \<notin> set ?s" by (simp add: sortNumbers_set collected_no_NaN)
  from n have "1 < count_list ?s (Fin n)" by (simp add: count_list_sortNumbers)
  from sorted_dup_adjacent_number[OF sortNumbers_sorted[OF collected_no_NaN] nn this]
  obtain i where i: "Suc i < length ?s" "?s ! i = Fin n" "?s ! Suc i = Fin n" by blast
  from n have "Fin n \<in> set ?nums" by (intro count_list_pos_mem) simp
  then have li: "lastImage images (Fin n) = Some ?img" by (simp add: lastImage_Some)
  have g: "gapAt doc ?s (lastImage images) (Suc i) = [gapDiagnostic doc ?img (Fin n) (Fin n)]"
    using i li notIdentical_plusOne[OF bn] by (simp add: gapAt_def del: plusOne.simps)
  from i have "Suc i \<in> set [0..<length ?nums]" by (simp add: length_sortNumbers)
  then have "gapDiagnostic doc ?img (Fin n) (Fin n)
             \<in> set (concat (map (gapAt doc ?s (lastImage images)) [0..<length ?nums]))"
    using g by (auto intro!: bexI[of _ "Suc i"])
  moreover have "gapDiagnostic doc ?img (Fin n) (Fin n)
        = \<lparr>d_range = getMatchRange doc (i_index ?img) (i_fullMatch ?img),
           d_message = ''Image numbering is not sequential. Expected '' @ padStart2 (show_nat (n + 1))
                         @ '', found '' @ padStart2 (show_nat n),
           d_severity = Warning,
           d_source = ''Educational Validator'',
           d_code = None\<rparr>"
    using bn plusOne_safe[OF bn]
    by (simp add: gapDiagnostic_def numToString_safe del: plusOne.simps)
  ultimately show ?thesis
    unfolding v by simp
qed

text \<open>
  The instance for the ids 1, 2, 2, 3: besides the duplicate Error the call emits the Warning
  ``Expected 03, found 02'' at the third tag, and nothing else.
\<close>

theorem gap_warning_ids_1223:
  "List.map_filter imageNumber (findAllImages text1223) = [Fin 1, Fin 2, Fin 2, Fin 3]
   \<and> (2::nat) < 9007199254740992
   \<and> \<lparr>d_range = \<lparr>r_start = 52, r_end = 78\<rparr>,
       d_message = ''Image numbering is not sequential. Expected 03, found 02'',
       d_severity = Warning,
       d_source = ''Educational Validator'',
       d_code = None\<rparr>
     \<in> set (drop (length ([] :: diagnostic list))
          (validateImageNumbering (mkDocument text1223 ''/w/d.html'') (findAllImages text1223) []))
   \<and> map (\<lambda>d. (d_severity d, d_message d))
         (validateImageNumbering (mkDocument text1223 ''/w/d.html'') (findAllImages text1223) [])
       = [(Error, ''Duplicate image number: 2 is used 2 times''),
          (Warning, ''Image numbering is not sequential. Expected 03, found 02'')]"
proof -
  have ids: "List.map_filter imageNumber (findAllImages text1223) = [Fin 1, Fin 2, Fin 2, Fin 3]"
    by code_simp
  have safe: "(2::nat) < 9007199254740992" by simp
  have hyp: "1 < count_list (List.map_filter imageNumber (findAllImages text1223)) (Fin 2)"
    unfolding ids by simp
  have img: "last (filter (\<lambda>img. imageNumber img = Some (Fin 2)) (findAllImages text1223))
             = \<lparr>i_fullMatch = ''<img src=\"d_files/02.png\">'', i_src = ''d_files/02.png'',
                 i_index = 52, i_hasScAttribute = False\<rparr>"
    by code_simp
  have rng: "getMatchRange (mkDocument text1223 ''/w/d.html'') 52 ''<img src=\"d_files/02.png\">''
             = \<lparr>r_start = 52, r_end = 78\<rparr>"
    by code_simp
  have msg: "''Image numbering is not sequential. Expected '' @ padStart2 (show_nat (2 + 1))
               @ '', found '' @ padStart2 (show_nat 2)
             = ''Image numbering is not sequential. Expected 03, found 02''"
    by code_simp
  have all: "map (\<lambda>d. (d_severity d, d_message d))
         (validateImageNumbering (mkDocument text1223 ''/w/d.html'') (findAllImages text1223) [])
       = [(Error, ''Duplicate image number: 2 is used 2 times''),
          (Warning, ''Image numbering is not sequential. Expected 03, found 02'')]"
    by code_simp
  from duplicate_triggers_gap_warning[OF safe hyp, where doc = "mkDocument text1223 ''/w/d.html''"
      and diagnostics = "[]"]
  have main: "\<lparr>d_range = \<lparr>r_start = 52, r_end = 78\<rparr>,
       d_message = ''Image numbering is not sequential. Expected 03, found 02'',
       d_severity = Warning,
       d_source = ''Educational Validator'',
       d_code = None\<rparr>
     \<in> set (drop (length ([] :: diagnostic list))
          (validateImageNumbering (mkDocument text1223 ''/w/d.html'') (findAllImages text1223) []))"
    unfolding img image.simps rng msg .
  from ids safe main all show ?thesis by (intro conjI)
qed

text \<open>
  The claim as stated, for any duplicated id, fails at \<open>2^53\<close>. Two tags with the id
  9007199254740992: the sum of the id and 1 is the id again, so the test of the walk does not
  fire; the call emits the duplicate Error and the Warning about the first number, and no
  Warning about the sequence.
\<close>

theorem gap_warning_large_id_counterexample:
  "findAllImages textExact = [imgExact1, imgExact2]
   \<and> List.map_filter imageNumber (findAllImages textExact)
       = [Fin 9007199254740992, Fin 9007199254740992]
   \<and> plusOne (Fin 9007199254740992) = Fin 9007199254740992
   \<and> \<not> notIdentical (Fin 9007199254740992) (plusOne (Fin 9007199254740992))
   \<and> map (\<lambda>d. (d_severity d, d_message d))
         (validateImageNumbering (mkDocument textExact ''/w/g.html'') (findAllImages textExact) [])
       = [(Error, ''Duplicate image number: 9007199254740992 is used 2 times''),
          (Warning, ''Image numbering should start with 01, found 9007199254740992'')]"
proof -
  let ?doc = "mkDocument textExact ''/w/g.html''"
  have imgs: "findAllImages textExact = [imgExact1, imgExact2]" by code_simp
  have ids: "List.map_filter imageNumber [imgExact1, imgExact2]
             = [Fin 9007199254740992, Fin 9007199254740992]"
    by (simp add: List.map_filter_def imageNumber_exact)
  have po: "plusOne (Fin 9007199254740992) = Fin 9007199254740992"
    by (simp add: toDouble_2p53_1)
  have ni: "\<not> notIdentical (Fin 9007199254740992) (plusOne (Fin 9007199254740992))"
    unfolding po by (simp add: notIdentical_def)
  have pad: "padStart2 ''9007199254740992'' = ''9007199254740992''" by code_simp
  have two: "show_nat 2 = ''2''" by code_simp
  have r: "map (\<lambda>d. (d_severity d, d_message d))
         (validateImageNumbering ?doc [imgExact1, imgExact2] [])
       = [(Error, ''Duplicate image number: 9007199254740992 is used 2 times''),
          (Warning, ''Image numbering should start with 01, found 9007199254740992'')]"
    unfolding two_ids_2p53[OF imageNumber_exact]
    by (simp add: duplicateDiagnostic_def startDiagnostic_def numToString_2p53 pad two)
  from imgs ids po ni r show ?thesis unfolding imgs by (intro conjI)
qed

section \<open>Extraction of image tags\<close>

text \<open>
  Claim C6. \<open>findAllImages\<close> returns first the matches of the canonical \<open>src\<close> tag, then
  the matches of the near-miss \<open>sc\<close> tag. Each block is the global scan of its pattern
  (\<open>exec_all\<close>: the leftmost match at or after the end of the previous one), so within a block
  the matches do not overlap and their offsets increase strictly. The flag
  \<open>hasScAttribute\<close> is false exactly on the first block, so every canonical match stands
  before every near-miss match in the list, wherever the tags stand in the document.
\<close>

theorem findAllImages_order:
  "take (length (exec_all True imgSrcRegex t 0)) (findAllImages t)
     = map srcImage (exec_all True imgSrcRegex t 0)
   \<and> drop (length (exec_all True imgSrcRegex t 0)) (findAllImages t)
     = map scImage (exec_all True imgScRegex t 0)
   \<and> sorted_wrt (\<lambda>a b. i_index a + length (i_fullMatch a) \<le> i_index b \<and> i_index a < i_index b)
        (take (length (exec_all True imgSrcRegex t 0)) (findAllImages t))
   \<and> sorted_wrt (\<lambda>a b. i_index a + length (i_fullMatch a) \<le> i_index b \<and> i_index a < i_index b)
        (drop (length (exec_all True imgSrcRegex t 0)) (findAllImages t))
   \<and> (\<forall>j<length (findAllImages t).
         i_hasScAttribute (findAllImages t ! j) \<longleftrightarrow> length (exec_all True imgSrcRegex t 0) \<le> j)
   \<and> (\<forall>j<length (findAllImages t). \<forall>k<length (findAllImages t).
         \<not> i_hasScAttribute (findAllImages t ! j) \<and> i_hasScAttribute (findAllImages t ! k)
         \<longrightarrow> j < k)"
proof -
  let ?A = "exec_all True imgSrcRegex t 0"
  let ?B = "exec_all True imgScRegex t 0"
  let ?R = "\<lambda>a b. i_index a + length (i_fullMatch a) \<le> i_index b \<and> i_index a < i_index b"
  have tk: "take (length ?A) (findAllImages t) = map srcImage ?A"
    by (simp add: findAllImages_eq)
  have dr: "drop (length ?A) (findAllImages t) = map scImage ?B"
    by (simp add: findAllImages_eq)
  have s1: "sorted_wrt ?R (map srcImage ?A)"
    using exec_all_strict[of True imgSrcRegex t 0, OF imgSrcRegex_consumes]
    by (simp add: sorted_wrt_map srcImage_def)
  have s2: "sorted_wrt ?R (map scImage ?B)"
    using exec_all_strict[of True imgScRegex t 0, OF imgScRegex_consumes]
    by (simp add: sorted_wrt_map scImage_def)
  have fl: "\<forall>j<length (findAllImages t).
         i_hasScAttribute (findAllImages t ! j) \<longleftrightarrow> length ?A \<le> j"
  proof (intro allI impI)
    fix j assume j: "j < length (findAllImages t)"
    show "i_hasScAttribute (findAllImages t ! j) \<longleftrightarrow> length ?A \<le> j"
    proof (cases "j < length ?A")
      case True
      then have "findAllImages t ! j = srcImage (?A ! j)"
        by (simp add: findAllImages_eq nth_append)
      with True show ?thesis by (simp add: srcImage_def)
    next
      case False
      with j have "findAllImages t ! j = scImage (?B ! (j - length ?A))"
        by (simp add: findAllImages_eq nth_append)
      with False show ?thesis by (simp add: scImage_def)
    qed
  qed
  have cr: "\<forall>j<length (findAllImages t). \<forall>k<length (findAllImages t).
         \<not> i_hasScAttribute (findAllImages t ! j) \<and> i_hasScAttribute (findAllImages t ! k)
         \<longrightarrow> j < k"
  proof (intro allI impI)
    fix j k
    assume j: "j < length (findAllImages t)" and k: "k < length (findAllImages t)"
      and h: "\<not> i_hasScAttribute (findAllImages t ! j) \<and> i_hasScAttribute (findAllImages t ! k)"
    from fl j h have "\<not> length ?A \<le> j" by blast
    moreover from fl k h have "length ?A \<le> k" by blast
    ultimately show "j < k" by simp
  qed
  from tk dr s1 s2 fl cr show ?thesis by (simp only: simp_thms)
qed

text \<open>
  The instance for a near-miss tag followed by two canonical ones: the canonical matches, at
  offsets 12 and 25, come first, and the near-miss match at offset 0 comes last.
\<close>

theorem findAllImages_order_witness:
  "map (\<lambda>i. (i_index i, i_src i, i_hasScAttribute i)) (findAllImages textOrder)
     = [(12, ''b'', False), (25, ''c'', False), (0, ''a'', True)]
   \<and> length (exec_all True imgSrcRegex textOrder 0) = 2
   \<and> sorted_wrt (\<lambda>a b. i_index a + length (i_fullMatch a) \<le> i_index b \<and> i_index a < i_index b)
        (take 2 (findAllImages textOrder))
   \<and> i_hasScAttribute (findAllImages textOrder ! 2)
   \<and> \<not> i_hasScAttribute (findAllImages textOrder ! 0)
   \<and> i_index (findAllImages textOrder ! 2) < i_index (findAllImages textOrder ! 0)"
proof -
  have ev: "map (\<lambda>i. (i_index i, i_src i, i_hasScAttribute i)) (findAllImages textOrder)
     = [(12, ''b'', False), (25, ''c'', False), (0, ''a'', True)]"
    by code_simp
  have n: "length (exec_all True imgSrcRegex textOrder 0) = 2" by code_simp
  have len: "length (findAllImages textOrder) = 3" by code_simp
  have pos: "i_index (findAllImages textOrder ! 2) < i_index (findAllImages textOrder ! 0)"
    by code_simp
  note inst = findAllImages_order[of textOrder, unfolded n len]
  from inst have srt: "sorted_wrt (\<lambda>a b. i_index a + length (i_fullMatch a) \<le> i_index b \<and> i_index a < i_index b)
        (take 2 (findAllImages textOrder))"
    by blast
  from inst have fl: "\<forall>j<3. i_hasScAttribute (findAllImages textOrder ! j) \<longleftrightarrow> 2 \<le> j"
    by blast
  from fl have f2: "i_hasScAttribute (findAllImages textOrder ! 2)" by simp
  from fl have f0: "\<not> i_hasScAttribute (findAllImages textOrder ! 0)" by simp
  from ev n srt f2 f0 pos show ?thesis by (intro conjI)
qed

section \<open>Folder names\<close>




section \<open>Typo detection\<close>




text \<open>
  Claim C7, as the code has it. For a distinct path that no well-formed match's captured path
  contains, taken at its first occurrence in the text: when none of the five typo shapes
  matches in the window and no diagnostic emitted so far has a range containing the position of
  that occurrence, exactly one Warning is appended. Its range runs from 5 characters before the
  occurrence to 5 characters after its end (10 characters of padding in all, cut at the bounds
  of the text), its message says that a file path was found outside a proper img tag, and it
  carries no fix.
\<close>

theorem bare_path_warning_per_distinct_path:
  assumes "p \<in> set (filesMatches t)"
    and "\<not> list_ex (\<lambda>img. str_includes (i_src img) p) images"
    and "indexOf t p = Some idx"
  shows "distinct (filesMatches t) \<and> set (filesMatches t) = m_text ` set (filesRefs t)
    \<and> findImageTagTypos doc t images diagnostics
        = fold (checkPath doc t images) (filesMatches t) diagnostics
    \<and> length typoMatches = 5
    \<and> (take (length p) (drop idx t) = p \<and> (\<forall>j<idx. take (length p) (drop j t) \<noteq> p)
          \<and> contextText t idx p = substring t (idx - 50) (min (length t) (idx + length p + 50))
          \<and> ((\<forall>r\<in>set typoMatches. exec True r (contextText t idx p) 0 = None)
               \<and> \<not> list_ex (\<lambda>d. contains (d_range d) (positionAt doc (int idx))) emitted
             \<longrightarrow> checkPath doc t images p emitted
                 = emitted @
                   [\<lparr>d_range = newRange (positionAt doc (int idx - 5))
                                     (positionAt doc (int (idx + length p + 5))),
                     d_message = ''File path found outside a proper <img> tag. Check for HTML syntax errors.'',
                     d_severity = Warning,
                     d_source = ''Educational Validator'',
                     d_code = None\<rparr>])
          \<and> (doc_text doc = t \<longrightarrow>
                newRange (positionAt doc (int idx - 5)) (positionAt doc (int (idx + length p + 5)))
                = \<lparr>r_start = idx - 5, r_end = min (length t) (idx + length p + 5)\<rparr>))"
proof -
  note idx = assms(3)
  note first = indexOf_first[OF idx]
  have len: "length typoMatches = 5" by (simp add: typoMatches_def)
  have w: "checkPath doc t images p emitted = emitted @ [pathDiagnostic doc p idx]"
    if "\<forall>r\<in>set typoMatches. exec True r (contextText t idx p) 0 = None"
      and "\<not> list_ex (\<lambda>d. contains (d_range d) (positionAt doc (int idx))) emitted"
  proof -
    from that(1) have "firstTypo (contextText t idx p) typoMatches = None"
      by (simp add: firstTypo_None)
    with that(2) assms(2) idx show ?thesis by (simp add: checkPath_def Let_def)
  qed
  have r: "newRange (positionAt doc (int idx - 5)) (positionAt doc (int (idx + length p + 5)))
                = \<lparr>r_start = idx - 5, r_end = min (length t) (idx + length p + 5)\<rparr>"
    if "doc_text doc = t"
    using that first by (auto simp: newRange_def positionAt_def)
  have b1: "take (length p) (drop idx t) = p
            \<and> (\<forall>j<idx. take (length p) (drop j t) \<noteq> p)
            \<and> contextText t idx p = substring t (idx - 50) (min (length t) (idx + length p + 50))"
    using first idx contextText_window by simp
  have b2: "(\<forall>r\<in>set typoMatches. exec True r (contextText t idx p) 0 = None)
               \<and> \<not> list_ex (\<lambda>d. contains (d_range d) (positionAt doc (int idx))) emitted
             \<longrightarrow> checkPath doc t images p emitted
                 = emitted @
                   [\<lparr>d_range = newRange (positionAt doc (int idx - 5))
                                     (positionAt doc (int (idx + length p + 5))),
                     d_message = ''File path found outside a proper <img> tag. Check for HTML syntax errors.'',
                     d_severity = Warning,
                     d_source = ''Educational Validator'',
                     d_code = None\<rparr>]"
    using w by (simp add: pathDiagnostic_def)
  have b3: "doc_text doc = t \<longrightarrow>
                newRange (positionAt doc (int idx - 5)) (positionAt doc (int (idx + length p + 5)))
                = \<lparr>r_start = idx - 5, r_end = min (length t) (idx + length p + 5)\<rparr>"
    using r by blast
  from filesMatches_distinct[of t] filesMatches_set[of t] findImageTagTypos_fold[of doc t images diagnostics]
    len b1 b2 b3
  show ?thesis by blast
qed

text \<open>
  The instance for a bare path at offset 6 of a 34-character text: one Warning over the
  offsets 1 to 24.
\<close>

theorem bare_path_warning_witness:
  "filesMatches textBare = [''a_files/1.png'']
   \<and> findAllImages textBare = []
   \<and> indexOf textBare ''a_files/1.png'' = Some 6
   \<and> list_all (\<lambda>r. exec True r (contextText textBare 6 ''a_files/1.png'') 0 = None) typoMatches
   \<and> checkPath (mkDocument textBare ''/w/a.html'') textBare [] ''a_files/1.png'' []
       = [\<lparr>d_range = \<lparr>r_start = 1, r_end = 24\<rparr>,
           d_message = ''File path found outside a proper <img> tag. Check for HTML syntax errors.'',
           d_severity = Warning,
           d_source = ''Educational Validator'',
           d_code = None\<rparr>]
   \<and> findImageTagTypos (mkDocument textBare ''/w/a.html'') textBare [] []
       = fold (checkPath (mkDocument textBare ''/w/a.html'') textBare []) [''a_files/1.png''] []"
proof -
  let ?p = "''a_files/1.png''"
  let ?doc = "mkDocument textBare ''/w/a.html''"
  have fm: "filesMatches textBare = [?p]" by code_simp
  have im: "findAllImages textBare = []" by code_simp
  have ix: "indexOf textBare ?p = Some 6" by code_simp
  have nt: "list_all (\<lambda>r. exec True r (contextText textBare 6 ?p) 0 = None) typoMatches"
    by code_simp
  have mem: "?p \<in> set (filesMatches textBare)" unfolding fm by simp
  have nc: "\<not> list_ex (\<lambda>img. str_includes (i_src img) ?p) []" by simp
  have ne: "\<not> list_ex (\<lambda>d. contains (d_range d) (positionAt ?doc (int 6))) ([] :: diagnostic list)" by simp
  have dt: "doc_text ?doc = textBare" by (simp add: mkDocument_def)
  have len: "min (length textBare) (6 + length ?p + 5) = 24" by code_simp
  note inst = bare_path_warning_per_distinct_path[OF mem nc ix, where doc = ?doc
      and diagnostics = "[]" and emitted = "[]"]
  from inst have fo: "findImageTagTypos ?doc textBare [] []
        = fold (checkPath ?doc textBare []) (filesMatches textBare) []"
    by (elim conjE)
  from inst have w: "(\<forall>r\<in>set typoMatches. exec True r (contextText textBare 6 ?p) 0 = None)
               \<and> \<not> list_ex (\<lambda>d. contains (d_range d) (positionAt ?doc (int 6))) ([] :: diagnostic list)
             \<longrightarrow> checkPath ?doc textBare [] ?p []
                 = [] @
                   [\<lparr>d_range = newRange (positionAt ?doc (int 6 - 5))
                                     (positionAt ?doc (int (6 + length ?p + 5))),
                     d_message = ''File path found outside a proper <img> tag. Check for HTML syntax errors.'',
                     d_severity = Warning,
                     d_source = ''Educational Validator'',
                     d_code = None\<rparr>]"
    by (elim conjE)
  from inst have r: "doc_text ?doc = textBare \<longrightarrow>
                newRange (positionAt ?doc (int 6 - 5)) (positionAt ?doc (int (6 + length ?p + 5)))
                = \<lparr>r_start = 6 - 5, r_end = min (length textBare) (6 + length ?p + 5)\<rparr>"
    by (elim conjE)
  from nt have nt': "\<forall>r\<in>set typoMatches. exec True r (contextText textBare 6 ?p) 0 = None"
    by (simp add: list_all_iff)
  from r dt have r': "newRange (positionAt ?doc (int 6 - 5)) (positionAt ?doc (int (6 + length ?p + 5)))
                = \<lparr>r_start = 1, r_end = 24\<rparr>"
    unfolding len by simp
  from w nt' ne have "checkPath ?doc textBare [] ?p []
                 = [] @
                   [\<lparr>d_range = newRange (positionAt ?doc (int 6 - 5))
                                     (positionAt ?doc (int (6 + length ?p + 5))),
                     d_message = ''File path found outside a proper <img> tag. Check for HTML syntax errors.'',
                     d_severity = Warning,
                     d_source = ''Educational Validator'',
                     d_code = None\<rparr>]"
    by (rule mp[OF _ conjI])
  then have main: "checkPath ?doc textBare [] ?p []
       = [\<lparr>d_range = \<lparr>r_start = 1, r_end = 24\<rparr>,
           d_message = ''File path found outside a proper <img> tag. Check for HTML syntax errors.'',
           d_severity = Warning,
           d_source = ''Educational Validator'',
           d_code = None\<rparr>]"
    unfolding r' by simp
  from fo have fo': "findImageTagTypos ?doc textBare [] [] = fold (checkPath ?doc textBare []) [?p] []"
    unfolding fm .
  from fm im ix nt main fo' show ?thesis by (intro conjI)
qed

text \<open>
  The claim as stated, for every reference, fails when a bare path occurs twice, at offsets 0
  and 33: no typo shape matches near either, and the only diagnostic, the Warning over 0 to 18
  for the first occurrence, does not contain offset 33; no Warning is emitted around the second.
\<close>

theorem bare_path_repeated_counterexample:
  "map m_index (filesRefs textTwoBare) = [0, 33]
   \<and> map m_text (filesRefs textTwoBare) = [''a_files/1.png'', ''a_files/1.png'']
   \<and> findAllImages textTwoBare = []
   \<and> firstTypo (contextText textTwoBare 0 ''a_files/1.png'') typoMatches = None
   \<and> firstTypo (contextText textTwoBare 33 ''a_files/1.png'') typoMatches = None
   \<and> map (\<lambda>d. (d_severity d, d_range d))
         (findImageTagTypos (mkDocument textTwoBare ''/w/a.html'') textTwoBare [] [])
       = [(Warning, \<lparr>r_start = 0, r_end = 18\<rparr>)]
   \<and> \<not> contains \<lparr>r_start = 0, r_end = 18\<rparr>
         (positionAt (mkDocument textTwoBare ''/w/a.html'') (int 33))"
proof -
  have a: "map m_index (filesRefs textTwoBare) = [0, 33]" by code_simp
  have b: "map m_text (filesRefs textTwoBare) = [''a_files/1.png'', ''a_files/1.png'']" by code_simp
  have c: "findAllImages textTwoBare = []" by code_simp
  have d: "firstTypo (contextText textTwoBare 0 ''a_files/1.png'') typoMatches = None" by code_simp
  have e: "firstTypo (contextText textTwoBare 33 ''a_files/1.png'') typoMatches = None" by code_simp
  have f: "map (\<lambda>d. (d_severity d, d_range d))
         (findImageTagTypos (mkDocument textTwoBare ''/w/a.html'') textTwoBare [] [])
       = [(Warning, \<lparr>r_start = 0, r_end = 18\<rparr>)]"
    by code_simp
  have g: "\<not> contains \<lparr>r_start = 0, r_end = 18\<rparr>
         (positionAt (mkDocument textTwoBare ''/w/a.html'') (int 33))"
    by code_simp
  from a b c d e f g show ?thesis by (intro conjI)
qed

section \<open>The mark/marks rule\<close>

text \<open>
  Claim C1. For every natural number n and every unit string, \<open>isCorrectMarkUsage\<close> on the
  number n (written \<open>Fin n\<close>) and the unit holds exactly when n = 1 and the unit is ``mark'',
  or n > 1 and the unit is ``marks''; for the two units of the annotation this means: ``mark''
  is correct only for 1, ``marks'' only for numbers above 1, and 0 is correct with neither.
\<close>

theorem isCorrectMarkUsage_iff:
  "(isCorrectMarkUsage (Fin n) u \<longleftrightarrow> (n = 1 \<and> u = ''mark'') \<or> (1 < n \<and> u = ''marks''))
   \<and> (isCorrectMarkUsage (Fin n) ''mark'' \<longleftrightarrow> n = 1)
   \<and> (isCorrectMarkUsage (Fin n) ''marks'' \<longleftrightarrow> 1 < n)
   \<and> \<not> isCorrectMarkUsage (Fin 0) ''mark''
   \<and> \<not> isCorrectMarkUsage (Fin 0) ''marks''"
  by (simp add: isCorrectMarkUsage_def)

text \<open>
  Claim C2 says that the proposed fix, put in place of a failing annotation, passes
  \<open>isCorrectMarkUsage\<close> when the text is extracted again. At the value 0 the code does not do
  this. \<open>getCorrectTerm\<close> at 0 is ``marks'', so the fix for ``0 mark'' is ``0 marks''; but
  \<open>isCorrectMarkUsage\<close> accepts ``marks'' only above 1, so the fixed text is flagged again,
  with the message \<open>Use "marks" for 0 point\<close> and the very same fix. The theorem evaluates
  the rule on the annotation with ``0 mark'', applies the fix, and evaluates the rule on the
  result.
\<close>

theorem mark_fix_for_zero_still_flagged:
  "map (\<lambda>q. (q_points q, q_term q)) (findTotalQuestionMarks textZero) = [(Fin 0, ''mark'')]
   \<and> \<not> isCorrectMarkUsage (Fin 0) ''mark''
   \<and> getCorrectTerm (Fin 0) = ''marks''
   \<and> createCorrectedText (Fin 0) = textZeroFixed
   \<and> map (\<lambda>d. (d_message d, map_option (\<lambda>c. applyEdit textZero (fixIssue c)) (d_code d)))
         (markRule_validate (mkDocument textZero ''/w/q.html'') [])
       = [(''Use \"marks\" for 0 point'', Some textZeroFixed)]
   \<and> map (\<lambda>q. (q_points q, q_term q)) (findTotalQuestionMarks textZeroFixed) = [(Fin 0, ''marks'')]
   \<and> \<not> isCorrectMarkUsage (Fin 0) ''marks''
   \<and> map (\<lambda>d. (d_message d, map_option (\<lambda>c. applyEdit textZeroFixed (fixIssue c)) (d_code d)))
         (markRule_validate (mkDocument textZeroFixed ''/w/q.html'') [])
       = [(''Use \"marks\" for 0 point'', Some textZeroFixed)]"
proof -
  have a: "map (\<lambda>q. (q_points q, q_term q)) (findTotalQuestionMarks textZero) = [(Fin 0, ''mark'')]"
    by code_simp
  have b: "\<not> isCorrectMarkUsage (Fin 0) ''mark''" by code_simp
  have c: "getCorrectTerm (Fin 0) = ''marks''" by code_simp
  have d: "createCorrectedText (Fin 0) = textZeroFixed" by code_simp
  have e: "map (\<lambda>d. (d_message d, map_option (\<lambda>c. applyEdit textZero (fixIssue c)) (d_code d)))
         (markRule_validate (mkDocument textZero ''/w/q.html'') [])
       = [(''Use \"marks\" for 0 point'', Some textZeroFixed)]"
    by code_simp
  have f: "map (\<lambda>q. (q_points q, q_term q)) (findTotalQuestionMarks textZeroFixed) = [(Fin 0, ''marks'')]"
    by code_simp
  have g: "\<not> isCorrectMarkUsage (Fin 0) ''marks''" by code_simp
  have h: "map (\<lambda>d. (d_message d, map_option (\<lambda>c. applyEdit textZeroFixed (fixIssue c)) (d_code d)))
         (markRule_validate (mkDocument textZeroFixed ''/w/q.html'') [])
       = [(''Use \"marks\" for 0 point'', Some textZeroFixed)]"
    by code_simp
  from a b c d e f g h show ?thesis by (intro conjI)
qed

text \<open>
  Claim C10. Every fix proposal of the mark/marks rule carries the literal string
  \<open>DOCUMENT_URI_PLACEHOLDER\<close> as its document, whatever the document's URI is; the
  \<open>fixIssue\<close> command targets exactly the URI of the payload; and \<open>validateDocument\<close>
  stores the rule's diagnostics unchanged, followed by the image rule's, none of which is a
  mark/marks fix. No step replaces the placeholder.
\<close>

theorem mark_fix_uri_is_placeholder:
  "(\<forall>d\<in>set (drop (length diagnostics) (markRule_validate doc diagnostics)).
      \<exists>c. d_code d = Some c \<and> fix_value c = ''fix-mark-marks''
          \<and> fix_uri c = ''DOCUMENT_URI_PLACEHOLDER''
          \<and> e_uri (fixIssue c) = ''DOCUMENT_URI_PLACEHOLDER'')
   \<and> markRule_validate (doc\<lparr>doc_uri := u\<rparr>) diagnostics = markRule_validate doc diagnostics
   \<and> (isHtmlLike doc \<longrightarrow>
        (\<exists>rest. validateDocument doc diagnosticsCollection (doc_uri doc)
                  = Some (markRule_validate doc [] @ rest)
              \<and> (\<forall>d\<in>set rest. \<forall>c. d_code d = Some c \<longrightarrow> fix_value c \<noteq> ''fix-mark-marks'')))"
proof (intro conjI impI)
  show "\<forall>d\<in>set (drop (length diagnostics) (markRule_validate doc diagnostics)).
      \<exists>c. d_code d = Some c \<and> fix_value c = ''fix-mark-marks''
          \<and> fix_uri c = ''DOCUMENT_URI_PLACEHOLDER''
          \<and> e_uri (fixIssue c) = ''DOCUMENT_URI_PLACEHOLDER''"
    by (auto simp: markRule_validate_eq createDiagnostic_def fixIssue_def)
next
  show "markRule_validate (doc\<lparr>doc_uri := u\<rparr>) diagnostics = markRule_validate doc diagnostics"
    by (simp add: markRule_validate_eq getMatchRange_def positionAt_def)
next
  assume h: "isHtmlLike doc"
  obtain rest where rest: "imageRule_validate doc (markRule_validate doc []) = markRule_validate doc [] @ rest"
    "list_all imageCode rest"
    using imageRule_validate_app by blast
  have "\<forall>d\<in>set rest. \<forall>c. d_code d = Some c \<longrightarrow> fix_value c \<noteq> ''fix-mark-marks''"
    using rest(2) by (auto simp: list_all_iff imageCode_def)
  with h rest(1)
  show "\<exists>rest. validateDocument doc diagnosticsCollection (doc_uri doc)
                  = Some (markRule_validate doc [] @ rest)
              \<and> (\<forall>d\<in>set rest. \<forall>c. d_code d = Some c \<longrightarrow> fix_value c \<noteq> ''fix-mark-marks'')"
    by (intro exI[of _ rest]) (simp add: validateDocument_def)
qed

text \<open>
  The instance for a document whose text holds ``(Total for question = 5 mark)'' and one image
  tag: the stored list starts with the mark diagnostic, whose fix names the placeholder.
\<close>

theorem mark_fix_uri_placeholder_witness:
  "isHtmlLike docHtml
   \<and> doc_uri docHtml = ''file:///w/lesson5.html''
   \<and> markRule_validate docHtml [] = [markDiag5]
   \<and> (\<exists>c. d_code markDiag5 = Some c \<and> fix_value c = ''fix-mark-marks''
          \<and> fix_uri c = ''DOCUMENT_URI_PLACEHOLDER''
          \<and> e_uri (fixIssue c) = ''DOCUMENT_URI_PLACEHOLDER'')
   \<and> (\<exists>rest. validateDocument docHtml Map.empty (doc_uri docHtml) = Some ([markDiag5] @ rest))"
proof -
  have h: "isHtmlLike docHtml" by code_simp
  have u: "doc_uri docHtml = ''file:///w/lesson5.html''" by code_simp
  have mk: "markRule_validate docHtml [] = [markDiag5]" by code_simp
  note inst = mark_fix_uri_is_placeholder[where doc = docHtml and diagnostics = "[]"
      and diagnosticsCollection = Map.empty]
  from inst have "\<forall>d\<in>set (drop (length ([]::diagnostic list)) (markRule_validate docHtml [])).
      \<exists>c. d_code d = Some c \<and> fix_value c = ''fix-mark-marks''
          \<and> fix_uri c = ''DOCUMENT_URI_PLACEHOLDER''
          \<and> e_uri (fixIssue c) = ''DOCUMENT_URI_PLACEHOLDER''"
    by (rule conjunct1)
  then have a: "\<exists>c. d_code markDiag5 = Some c \<and> fix_value c = ''fix-mark-marks''
          \<and> fix_uri c = ''DOCUMENT_URI_PLACEHOLDER''
          \<and> e_uri (fixIssue c) = ''DOCUMENT_URI_PLACEHOLDER''"
    unfolding mk by simp
  from inst h have "\<exists>rest. validateDocument docHtml Map.empty (doc_uri docHtml)
                  = Some (markRule_validate docHtml [] @ rest)
              \<and> (\<forall>d\<in>set rest. \<forall>c. d_code d = Some c \<longrightarrow> fix_value c \<noteq> ''fix-mark-marks'')"
    by blast
  then have b: "\<exists>rest. validateDocument docHtml Map.empty (doc_uri docHtml) = Some ([markDiag5] @ rest)"
    unfolding mk by blast
  from h u mk a b show ?thesis by (intro conjI)
qed


section \<open>The validation pass\<close>

text \<open>
  Claim C8. The validation pass (mark rule, then image rule, over a fresh list) is a function
  of the document's text, file name and URI alone: two documents that agree on these give the
  same diagnostics, element for element, whatever their other fields are and whatever the
  diagnostics collection held before; and running \<open>validateDocument\<close> a second time changes
  nothing.
\<close>

theorem validation_deterministic:
  assumes t: "doc_text d1 = doc_text d2"
    and f: "doc_fileName d1 = doc_fileName d2"
    and u: "doc_uri d1 = doc_uri d2"
  shows "imageRule_validate d1 (markRule_validate d1 []) = imageRule_validate d2 (markRule_validate d2 [])
    \<and> (isHtmlLike d1 \<and> isHtmlLike d2 \<longrightarrow>
          validateDocument d1 c1 (doc_uri d1) = validateDocument d2 c2 (doc_uri d2)
          \<and> validateDocument d1 c1 (doc_uri d1)
              = Some (imageRule_validate d1 (markRule_validate d1 [])))
    \<and> validateDocument d1 (validateDocument d1 c1) = validateDocument d1 c1"
proof -
  have p: "positionAt d1 off = positionAt d2 off" for off
    by (simp add: positionAt_def t cong: if_cong option.case_cong list.case_cong)
  have g: "getMatchRange d1 i s = getMatchRange d2 i s" for i s
    by (simp add: getMatchRange_def p cong: if_cong option.case_cong list.case_cong)
  have mk: "markRule_validate d1 ds = markRule_validate d2 ds" for ds
    by (simp add: markRule_validate_def g t cong: if_cong option.case_cong list.case_cong)
  have td: "typoDiagnostic d1 fp i tm = typoDiagnostic d2 fp i tm" for fp i tm
    by (simp add: typoDiagnostic_def p u cong: if_cong option.case_cong list.case_cong)
  have pd: "pathDiagnostic d1 fp i = pathDiagnostic d2 fp i" for fp i
    by (simp add: pathDiagnostic_def p cong: if_cong option.case_cong list.case_cong)
  have cp: "checkPath d1 tx images fp ds = checkPath d2 tx images fp ds" for tx images fp ds
    by (simp add: checkPath_def td pd p cong: if_cong option.case_cong list.case_cong)
  have cp': "checkPath d1 tx images = checkPath d2 tx images" for tx images
    by (intro ext) (rule cp)
  have ft: "findImageTagTypos d1 tx images ds = findImageTagTypos d2 tx images ds" for tx images ds
    by (simp add: findImageTagTypos_def cp' cong: if_cong option.case_cong list.case_cong)
  have fd: "folderDiagnostic d1 e img = folderDiagnostic d2 e img" for e img
    by (simp add: folderDiagnostic_def g u cong: if_cong option.case_cong list.case_cong)
  have vf: "validateFolderNames d1 images e ds = validateFolderNames d2 images e ds" for images e ds
    by (simp add: validateFolderNames_def fd cong: if_cong option.case_cong list.case_cong)
  have dd: "duplicateDiagnostic d1 img k c = duplicateDiagnostic d2 img k c" for img k c
    by (simp add: duplicateDiagnostic_def g cong: if_cong option.case_cong list.case_cong)
  have sd: "startDiagnostic d1 img k = startDiagnostic d2 img k" for img k
    by (simp add: startDiagnostic_def g cong: if_cong option.case_cong list.case_cong)
  have gd: "gapDiagnostic d1 img a b = gapDiagnostic d2 img a b" for img a b
    by (simp add: gapDiagnostic_def g cong: if_cong option.case_cong list.case_cong)
  have cd: "checkDuplicates d1 nums imap ds = checkDuplicates d2 nums imap ds" for nums imap ds
    by (simp add: checkDuplicates_def dd cong: if_cong option.case_cong list.case_cong)
  have cs: "checkStart d1 nums imap ds = checkStart d2 nums imap ds" for nums imap ds
    by (simp add: checkStart_def sd cong: if_cong option.case_cong list.case_cong)
  have cq: "checkSequence d1 nums imap ds = checkSequence d2 nums imap ds" for nums imap ds
    by (simp add: checkSequence_def gd cong: if_cong option.case_cong list.case_cong)
  have vn: "validateImageNumbering d1 images ds = validateImageNumbering d2 images ds" for images ds
    by (simp add: validateImageNumbering_def cd cs cq cong: if_cong option.case_cong list.case_cong)
  have iv: "imageRule_validate d1 ds = imageRule_validate d2 ds" for ds
    by (simp add: imageRule_validate_def t f ft vf vn cong: if_cong option.case_cong list.case_cong)
  have same: "imageRule_validate d1 (markRule_validate d1 []) = imageRule_validate d2 (markRule_validate d2 [])"
    by (simp add: iv mk)
  have idem: "validateDocument d1 (validateDocument d1 c1) = validateDocument d1 c1"
    by (simp add: validateDocument_def)
  from same idem show ?thesis
    by (simp add: validateDocument_def u)
qed

text \<open>
  The instance: the same text under the language ids html and php, validated from two different
  collections, gives the same three diagnostics.
\<close>

theorem validation_deterministic_witness:
  "doc_text docHtml = doc_text docPhp
   \<and> doc_fileName docHtml = doc_fileName docPhp
   \<and> doc_uri docHtml = doc_uri docPhp
   \<and> docHtml \<noteq> docPhp
   \<and> isHtmlLike docHtml \<and> isHtmlLike docPhp
   \<and> imageRule_validate docHtml (markRule_validate docHtml [])
       = imageRule_validate docPhp (markRule_validate docPhp [])
   \<and> validateDocument docHtml Map.empty (doc_uri docHtml)
       = validateDocument docPhp [''file:///w/lesson5.html'' \<mapsto> []] (doc_uri docPhp)
   \<and> validateDocument docHtml Map.empty (doc_uri docHtml)
       = Some [markDiag5, folderDiag02, startDiag02]"
proof -
  have t: "doc_text docHtml = doc_text docPhp" by (simp add: docHtml_def docPhp_def)
  have f: "doc_fileName docHtml = doc_fileName docPhp" by (simp add: docHtml_def docPhp_def)
  have u: "doc_uri docHtml = doc_uri docPhp" by (simp add: docHtml_def docPhp_def)
  have ne: "docHtml \<noteq> docPhp" by (simp add: docHtml_def docPhp_def)
  have h1: "isHtmlLike docHtml" by code_simp
  have h2: "isHtmlLike docPhp" by code_simp
  have ev: "imageRule_validate docHtml (markRule_validate docHtml [])
            = [markDiag5, folderDiag02, startDiag02]"
    by code_simp
  note inst = validation_deterministic[OF t f u, where ?c1.0 = Map.empty
      and ?c2.0 = "[''file:///w/lesson5.html'' \<mapsto> []]"]
  from inst have same: "imageRule_validate docHtml (markRule_validate docHtml [])
       = imageRule_validate docPhp (markRule_validate docPhp [])"
    by (rule conjunct1)
  from inst h1 h2 have st: "validateDocument docHtml Map.empty (doc_uri docHtml)
       = validateDocument docPhp [''file:///w/lesson5.html'' \<mapsto> []] (doc_uri docPhp)"
    and so: "validateDocument docHtml Map.empty (doc_uri docHtml)
       = Some (imageRule_validate docHtml (markRule_validate docHtml []))"
    by blast+
  from so have so': "validateDocument docHtml Map.empty (doc_uri docHtml)
       = Some [markDiag5, folderDiag02, startDiag02]"
    unfolding ev .
  from t f u ne h1 h2 same st so' show ?thesis by (intro conjI)
qed


end
